theory Spec2Isabelle
  imports Complex_Main "HOL-Library.Word" "HOL-Library.Sublist"
begin

section \<open>JavaScript numbers\<close>

text \<open>
  The detector computes with JavaScript \<open>number\<close>s.  Finite values are modelled as
  exact reals (IEEE rounding, overflow and the sign of zero are not modelled); the three
  non-finite values are kept, because a division by zero does not raise in JavaScript:
  it yields \<open>Infinity\<close>, \<open>-Infinity\<close> or \<open>NaN\<close>, and every comparison with \<open>NaN\<close>
  is false.
\<close>

datatype number = Num real | PInf | NInf | NaN

fun js_neg :: "number \<Rightarrow> number" where
  "js_neg (Num a) = Num (- a)"
| "js_neg PInf = NInf"
| "js_neg NInf = PInf"
| "js_neg NaN = NaN"

fun js_add :: "number \<Rightarrow> number \<Rightarrow> number" where
  "js_add (Num a) (Num b) = Num (a + b)"
| "js_add NaN _ = NaN"
| "js_add _ NaN = NaN"
| "js_add PInf NInf = NaN"
| "js_add NInf PInf = NaN"
| "js_add PInf _ = PInf"
| "js_add _ PInf = PInf"
| "js_add NInf _ = NInf"
| "js_add _ NInf = NInf"

definition js_sub :: "number \<Rightarrow> number \<Rightarrow> number" where
  "js_sub a b = js_add a (js_neg b)"

fun js_mul :: "number \<Rightarrow> number \<Rightarrow> number" where
  "js_mul (Num a) (Num b) = Num (a * b)"
| "js_mul NaN _ = NaN"
| "js_mul _ NaN = NaN"
| "js_mul (Num a) PInf = (if a = 0 then NaN else if 0 < a then PInf else NInf)"
| "js_mul (Num a) NInf = (if a = 0 then NaN else if 0 < a then NInf else PInf)"
| "js_mul PInf (Num b) = (if b = 0 then NaN else if 0 < b then PInf else NInf)"
| "js_mul NInf (Num b) = (if b = 0 then NaN else if 0 < b then NInf else PInf)"
| "js_mul PInf PInf = PInf"
| "js_mul NInf NInf = PInf"
| "js_mul PInf NInf = NInf"
| "js_mul NInf PInf = NInf"

fun js_div :: "number \<Rightarrow> number \<Rightarrow> number" where
  "js_div (Num a) (Num b) =
     (if b \<noteq> 0 then Num (a / b)
      else if a = 0 then NaN else if 0 < a then PInf else NInf)"
| "js_div NaN _ = NaN"
| "js_div _ NaN = NaN"
| "js_div (Num a) PInf = Num 0"
| "js_div (Num a) NInf = Num 0"
| "js_div PInf (Num b) = (if 0 \<le> b then PInf else NInf)"
| "js_div NInf (Num b) = (if 0 \<le> b then NInf else PInf)"
| "js_div _ _ = NaN"

fun js_lt :: "number \<Rightarrow> number \<Rightarrow> bool" where
  "js_lt NaN _ = False"
| "js_lt _ NaN = False"
| "js_lt (Num a) (Num b) = (a < b)"
| "js_lt PInf _ = False"
| "js_lt _ NInf = False"
| "js_lt _ PInf = True"
| "js_lt NInf _ = True"

definition js_gt :: "number \<Rightarrow> number \<Rightarrow> bool" where
  "js_gt a b = js_lt b a"

text \<open>\<open>Math.min\<close> and \<open>Math.max\<close> of two arguments: \<open>NaN\<close> if either is.\<close>

definition js_min :: "number \<Rightarrow> number \<Rightarrow> number" where
  "js_min a b = (if a = NaN \<or> b = NaN then NaN else if js_lt b a then b else a)"

definition js_max :: "number \<Rightarrow> number \<Rightarrow> number" where
  "js_max a b = (if a = NaN \<or> b = NaN then NaN else if js_lt a b then b else a)"

text \<open>\<open>Math.PI\<close> is the double nearest to \<open>\<pi>\<close>; this is its exact value.\<close>

definition Math_PI :: real where
  "Math_PI = 884279719003555 / 281474976710656"

section \<open>Data model\<close>

text \<open>
  \<open>interface Point { x: number; y: number }\<close>.  Pixel coordinates are integers
  (\<^typ>\<open>int\<close>, since a neighbour offset can lead to \<open>-1\<close>), geometric vertices are
  reals, a centroid is a pair of quotients.
\<close>

datatype 'a Point = Point (px: 'a) (py: 'a)

record BoundingBox =
  bb_x :: number
  bb_y :: number
  bb_width :: number
  bb_height :: number

text \<open>
  The union type of \<open>DetectedShape.type\<close> is only a compile-time annotation (and it omits
  \<open>"square"\<close>); at run time the field holds a string.
\<close>

record DetectedShape =
  type :: string
  confidence :: number
  boundingBox :: BoundingBox
  center :: "number Point"
  area :: nat

record DetectionResult =
  shapes :: "DetectedShape list"
  processingTime :: real
  imageWidth :: nat
  imageHeight :: nat

text \<open>
  \<open>ImageData\<close>: \<open>data\<close> is a \<open>Uint8ClampedArray\<close>, so every sample is a byte.  The browser
  only constructs values with \<open>length data = 4 * width * height\<close>; the record does not
  enforce it, so that inputs violating it can be expressed.
\<close>

record ImageData =
  img_data :: "8 word list"
  img_width :: nat
  img_height :: nat


section \<open>Grayscale conversion\<close>

text \<open>
  Storing a number into a \<open>Uint8ClampedArray\<close> applies \<open>ToUint8Clamp\<close>: \<open>NaN\<close> becomes
  0, the value is clamped to \<open>[0, 255]\<close> and rounded to the nearest integer, ties to even.
\<close>

definition ToUint8Clamp :: "number \<Rightarrow> 8 word" where
  "ToUint8Clamp v =
     (case v of
        NaN \<Rightarrow> 0
      | NInf \<Rightarrow> 0
      | PInf \<Rightarrow> 255
      | Num r \<Rightarrow>
          (if r \<le> 0 then 0
           else if 255 \<le> r then 255
           else let f = \<lfloor>r\<rfloor> in
             if of_int f + 1 / 2 < r then word_of_int (f + 1)
             else if r < of_int f + 1 / 2 then word_of_int f
             else if even f then word_of_int f
             else word_of_int (f + 1)))"

text \<open>Reading a typed array beyond its end yields \<open>undefined\<close>, which arithmetic turns into \<open>NaN\<close>.\<close>

definition sample :: "8 word list \<Rightarrow> nat \<Rightarrow> number" where
  "sample d i = (if i < length d then Num (real (unat (d ! i))) else NaN)"

definition gray_of :: "8 word list \<Rightarrow> nat \<Rightarrow> number" where
  "gray_of d i =
     js_add (js_add (js_mul (Num 0.299) (sample d i)) (js_mul (Num 0.587) (sample d (i + 1))))
            (js_mul (Num 0.114) (sample d (i + 2)))"

text \<open>
  The loop \<open>for (i = 0, j = 0; i < data.length; i += 4, j++)\<close> runs for
  \<open>j = 0, \<dots>, \<lceil>length data / 4\<rceil> - 1\<close> with \<open>i = 4 * j\<close>.  A write beyond the end of a
  typed array is ignored, as \<^const>\<open>list_update\<close> does.
\<close>

definition toGrayscale :: "ImageData \<Rightarrow> 8 word list" where
  "toGrayscale imageData =
     fold (\<lambda>j grayData. grayData[j := ToUint8Clamp (gray_of (img_data imageData) (4 * j))])
          [0 ..< (length (img_data imageData) + 3) div 4]
          (replicate (img_width imageData * img_height imageData) 0)"

section \<open>Otsu binarisation\<close>

text \<open>The first loop of \<open>otsuBinarize\<close>: histogram and total intensity.\<close>

text \<open>\<open>histogram[v]++\<close>\<close>

definition count_bin :: "8 word \<Rightarrow> nat list \<Rightarrow> nat list" where
  "count_bin v histogram = histogram[unat v := histogram ! unat v + 1]"

definition histogram_of :: "8 word list \<Rightarrow> nat list" where
  "histogram_of grayData = fold count_bin grayData (replicate 256 0)"

definition totalIntensity_of :: "8 word list \<Rightarrow> nat" where
  "totalIntensity_of grayData = fold (\<lambda>v total. total + unat v) grayData 0"

text \<open>The variables the threshold sweep carries from one iteration to the next.\<close>

record otsu_state =
  sumB :: int
  wB :: int
  wF :: int
  mB :: number
  mF :: number
  maxVariance :: number
  optimalThreshold :: nat

definition otsu_init :: otsu_state where
  "otsu_init = \<lparr>sumB = 0, wB = 0, wF = 0, mB = Num 0, mF = Num 0,
                 maxVariance = Num 0, optimalThreshold = 0\<rparr>"

text \<open>\<open>const variance = wB * wF * (mB - mF) * (mB - mF)\<close>, evaluated left to right.\<close>

definition variance_of :: "int \<Rightarrow> int \<Rightarrow> number \<Rightarrow> number \<Rightarrow> number" where
  "variance_of b f m1 m2 =
     js_mul (js_mul (js_mul (Num (of_int b)) (Num (of_int f))) (js_sub m1 m2)) (js_sub m1 m2)"

text \<open>
  The sweep \<open>for (let t = 0; t < 256; t++)\<close>, from iteration \<open>t\<close> on: \<open>continue\<close> is the
  recursive call with only \<open>wB\<close> updated, \<open>break\<close> returns the state.
\<close>

function otsuLoop :: "nat list \<Rightarrow> int \<Rightarrow> int \<Rightarrow> nat \<Rightarrow> otsu_state \<Rightarrow> otsu_state" where
  "otsuLoop histogram pixelCount totalIntensity t s =
     (if t < 256 then
        let b = wB s + int (histogram ! t) in
        if b = 0 then otsuLoop histogram pixelCount totalIntensity (t + 1) (s\<lparr>wB := b\<rparr>)
        else
          let f = pixelCount - b in
          if f = 0 then s\<lparr>wB := b, wF := f\<rparr>
          else
            let sm = sumB s + int t * int (histogram ! t);
                m1 = js_div (Num (of_int sm)) (Num (of_int b));
                m2 = js_div (Num (of_int (totalIntensity - sm))) (Num (of_int f));
                variance = variance_of b f m1 m2;
                s1 = s\<lparr>sumB := sm, wB := b, wF := f, mB := m1, mF := m2\<rparr>
            in otsuLoop histogram pixelCount totalIntensity (t + 1)
                 (if js_gt variance (maxVariance s1)
                  then s1\<lparr>maxVariance := variance, optimalThreshold := t\<rparr>
                  else s1)
      else s)"
  by pat_completeness auto
termination
  by (relation "measure (\<lambda>(histogram, pixelCount, totalIntensity, t, s). 256 - t)") auto

declare otsuLoop.simps [simp del]

definition otsuSweep :: "8 word list \<Rightarrow> nat \<Rightarrow> nat \<Rightarrow> otsu_state" where
  "otsuSweep grayData width height =
     otsuLoop (histogram_of grayData) (int (width * height))
       (int (totalIntensity_of grayData)) 0 otsu_init"

definition otsuThreshold :: "8 word list \<Rightarrow> nat \<Rightarrow> nat \<Rightarrow> nat" where
  "otsuThreshold grayData width height = optimalThreshold (otsuSweep grayData width height)"

text \<open>
  \<open>grayData[y * width + x] < optimalThreshold\<close>; beyond the end of the buffer the read
  is \<open>undefined\<close> and the comparison false.
\<close>

definition below :: "8 word list \<Rightarrow> nat \<Rightarrow> nat \<Rightarrow> bool" where
  "below grayData i threshold \<longleftrightarrow> i < length grayData \<and> unat (grayData ! i) < threshold"

definition binarize :: "8 word list \<Rightarrow> nat \<Rightarrow> nat \<Rightarrow> nat \<Rightarrow> nat list list" where
  "binarize grayData width height threshold =
     map (\<lambda>y. map (\<lambda>x. if below grayData (y * width + x) threshold then 1 else 0) [0 ..< width])
         [0 ..< height]"

definition otsuBinarize :: "8 word list \<Rightarrow> nat \<Rightarrow> nat \<Rightarrow> nat list list" where
  "otsuBinarize grayData width height =
     binarize grayData width height (otsuThreshold grayData width height)"

section \<open>Connected components\<close>

text \<open>
  \<open>binaryData[y][x]\<close> and \<open>visited[y][x]\<close>.  Both arrays have \<open>height\<close> rows of \<open>width\<close>
  cells wherever \<open>findContours\<close> and \<open>floodFill\<close> read them (the mask comes from
  \<open>otsuBinarize\<close>, \<open>visited\<close> is allocated with these dimensions), and every read is
  guarded by the bounds test on the coordinates.
\<close>

definition cell :: "'a list list \<Rightarrow> int \<Rightarrow> int \<Rightarrow> 'a" where
  "cell grid cx cy = grid ! nat cy ! nat cx"

definition mark_visited :: "bool list list \<Rightarrow> int \<Rightarrow> int \<Rightarrow> bool list list" where
  "mark_visited visited cx cy = visited[nat cy := (visited ! nat cy)[nat cx := True]]"

text \<open>
  The offsets \<open>(dx, dy)\<close> in the order of the loops \<open>for dy\<close>, \<open>for dx\<close> over \<open>-1..1\<close>,
  without \<open>(0, 0)\<close>.
\<close>

definition flood_offsets :: "(int \<times> int) list" where
  "flood_offsets =
     concat (map (\<lambda>dy. concat (map (\<lambda>dx. if dx = 0 \<and> dy = 0 then [] else [(dx, dy)])
                                     [-1, 0, 1])) [-1, 0, 1])"

text \<open>One pass of the body of the two inner loops, on the pair (queue, visited).\<close>

definition visitNeighbour ::
  "nat list list \<Rightarrow> nat \<Rightarrow> nat \<Rightarrow> int Point \<Rightarrow> int \<times> int \<Rightarrow>
   int Point list \<times> bool list list \<Rightarrow> int Point list \<times> bool list list" where
  "visitNeighbour binaryData width height p d qv =
     (let nx = px p + fst d; ny = py p + snd d in
      if 0 \<le> nx \<and> nx < int width \<and> 0 \<le> ny \<and> ny < int height \<and>
         cell binaryData nx ny = 1 \<and> \<not> cell (snd qv) nx ny
      then (fst qv @ [Point nx ny], mark_visited (snd qv) nx ny)
      else qv)"

text \<open>
  The loop \<open>while (queue.length > 0)\<close> of \<open>floodFill\<close>.  It returns the blob and the
  array \<open>visited\<close>, which the source mutates in place and shares with \<open>findContours\<close>.
\<close>

partial_function (option) floodLoop ::
  "nat list list \<Rightarrow> nat \<Rightarrow> nat \<Rightarrow> int Point list \<Rightarrow> bool list list \<Rightarrow> int Point list \<Rightarrow>
   (int Point list \<times> bool list list) option" where
  "floodLoop binaryData width height queue visited blob =
     (case queue of
        [] \<Rightarrow> Some (blob, visited)
      | p # rest \<Rightarrow>
          (let qv = fold (visitNeighbour binaryData width height p) flood_offsets (rest, visited)
           in floodLoop binaryData width height (fst qv) (snd qv) (blob @ [p])))"

declare floodLoop.simps [code]

definition floodFill ::
  "nat list list \<Rightarrow> int \<Rightarrow> int \<Rightarrow> nat \<Rightarrow> nat \<Rightarrow> bool list list \<Rightarrow>
   (int Point list \<times> bool list list) option" where
  "floodFill binaryData startX startY width height visited =
     floodLoop binaryData width height [Point startX startY]
       (mark_visited visited startX startY) []"

text \<open>The pixels in the order of the scan \<open>for y\<close>, \<open>for x\<close>.\<close>

definition scan_order :: "nat \<Rightarrow> nat \<Rightarrow> (nat \<times> nat) list" where
  "scan_order width height = concat (map (\<lambda>y. map (\<lambda>x. (x, y)) [0 ..< width]) [0 ..< height])"

fun findLoop ::
  "nat list list \<Rightarrow> nat \<Rightarrow> nat \<Rightarrow> (nat \<times> nat) list \<Rightarrow> bool list list \<Rightarrow> int Point list list \<Rightarrow>
   int Point list list option" where
  "findLoop binaryData width height [] visited contours = Some contours"
| "findLoop binaryData width height (c # rest) visited contours =
     (if cell binaryData (int (fst c)) (int (snd c)) = 1 \<and>
         \<not> cell visited (int (fst c)) (int (snd c))
      then
        (case floodFill binaryData (int (fst c)) (int (snd c)) width height visited of
           None \<Rightarrow> None
         | Some r \<Rightarrow> findLoop binaryData width height rest (snd r) (contours @ [fst r]))
      else findLoop binaryData width height rest visited contours)"

definition findContours :: "nat list list \<Rightarrow> nat \<Rightarrow> nat \<Rightarrow> int Point list list option" where
  "findContours binaryData width height =
     findLoop binaryData width height (scan_order width height)
       (replicate height (replicate width False)) []"

section \<open>Blob features\<close>

definition calculateCentroid :: "int Point list \<Rightarrow> number Point" where
  "calculateCentroid blob =
     (let sumX = fold (\<lambda>p s. s + px p) blob 0;
          sumY = fold (\<lambda>p s. s + py p) blob 0
      in Point (js_div (Num (of_int sumX)) (Num (real (length blob))))
               (js_div (Num (of_int sumY)) (Num (real (length blob)))))"

definition calculateBoundingBox :: "int Point list \<Rightarrow> BoundingBox" where
  "calculateBoundingBox blob =
     (let minX = fold (\<lambda>p m. js_min m (Num (of_int (px p)))) blob PInf;
          minY = fold (\<lambda>p m. js_min m (Num (of_int (py p)))) blob PInf;
          maxX = fold (\<lambda>p m. js_max m (Num (of_int (px p)))) blob NInf;
          maxY = fold (\<lambda>p m. js_max m (Num (of_int (py p)))) blob NInf
      in \<lparr>bb_x = minX, bb_y = minY,
          bb_width = js_add (js_sub maxX minX) (Num 1),
          bb_height = js_add (js_sub maxY minY) (Num 1)\<rparr>)"

section \<open>Moore-neighbour contour tracing\<close>

datatype error = TypeError

text \<open>The reducer that selects the start point: smallest \<open>y\<close>, then smallest \<open>x\<close>.\<close>

definition topLeft :: "int Point \<Rightarrow> int Point \<Rightarrow> int Point" where
  "topLeft p1 p2 =
     (if py p1 < py p2 then p1
      else if py p1 > py p2 then p2
      else if px p1 < px p2 then p1 else p2)"

definition neighbors :: "(int \<times> int) list" where
  "neighbors = [(0, -1), (1, -1), (1, 0), (1, 1), (0, 1), (-1, 1), (-1, 0), (-1, -1)]"

definition neighbor_at :: "int Point \<Rightarrow> nat \<Rightarrow> int Point" where
  "neighbor_at p checkDir =
     Point (px p + fst (neighbors ! checkDir)) (py p + snd (neighbors ! checkDir))"

text \<open>
  The inner \<open>for\<close> loop: the first direction, from \<open>nextDir\<close> clockwise, whose neighbour
  is in the blob.  \<open>blobSet\<close> holds the keys \<open>"x,y"\<close>, which determine the integer
  coordinates, so membership in it is membership in the blob.
\<close>

definition findNext :: "int Point list \<Rightarrow> int Point \<Rightarrow> nat \<Rightarrow> nat option" where
  "findNext blob currentPoint nextDir =
     find (\<lambda>checkDir. neighbor_at currentPoint checkDir \<in> set blob)
          (map (\<lambda>i. (nextDir + i) mod 8) [0 ..< 8])"

text \<open>
  The \<open>do \<dots> while\<close> loop, entered with the current point, the direction and the
  perimeter so far.  \<open>None\<close> is a loop that never ends.
\<close>

partial_function (option) traceLoop ::
  "int Point list \<Rightarrow> int Point \<Rightarrow> int Point \<Rightarrow> nat \<Rightarrow> int Point list \<Rightarrow> int Point list option" where
  "traceLoop blob startPoint currentPoint dir perimeter =
     (case findNext blob currentPoint ((dir + 7) mod 8) of
        None \<Rightarrow> Some (perimeter @ [currentPoint])
      | Some checkDir \<Rightarrow>
          (let nextPoint = neighbor_at currentPoint checkDir in
           if px nextPoint \<noteq> px startPoint \<or> py nextPoint \<noteq> py startPoint
           then traceLoop blob startPoint nextPoint checkDir (perimeter @ [currentPoint])
           else Some (perimeter @ [currentPoint])))"

declare traceLoop.simps [code]

text \<open>\<open>reduce\<close> without an initial value raises a \<open>TypeError\<close> on an empty array.\<close>

definition traceContour :: "int Point list \<Rightarrow> nat \<Rightarrow> nat \<Rightarrow> (error + int Point list) option" where
  "traceContour blob width height =
     (case blob of
        [] \<Rightarrow> Some (Inl TypeError)
      | p # ps \<Rightarrow>
          map_option Inr (traceLoop blob (foldl topLeft p ps) (foldl topLeft p ps) 0 []))"

section \<open>Ramer-Douglas-Peucker simplification\<close>

definition pointLineDistance :: "real Point \<Rightarrow> real Point \<Rightarrow> real Point \<Rightarrow> number" where
  "pointLineDistance p p1 p2 =
     (let dx = px p2 - px p1;
          dy = py p2 - py p1;
          num = \<bar>dy * px p - dx * py p + px p2 * py p1 - py p2 * px p1\<bar>;
          den = sqrt (dy * dy + dx * dx)
      in js_div (Num num) (Num den))"

text \<open>The search for the farthest point: the pair \<open>(dmax, index)\<close> after the \<open>for\<close> loop.\<close>

definition farthest :: "real Point list \<Rightarrow> number \<times> nat" where
  "farthest points =
     fold (\<lambda>i di.
             let d = pointLineDistance (points ! i) (points ! 0) (points ! (length points - 1))
             in if js_gt d (fst di) then (d, i) else di)
          [1 ..< length points - 1] (Num 0, 0)"

text \<open>
  \<open>points.slice(0, index + 1)\<close> is \<^const>\<open>take\<close>, \<open>points.slice(index)\<close> is \<^const>\<open>drop\<close>,
  \<open>recResults1.slice(0, -1)\<close> is \<^const>\<open>butlast\<close>.  \<open>None\<close> is a recursion that never ends.
\<close>

partial_function (option) rdp :: "real Point list \<Rightarrow> number \<Rightarrow> real Point list option" where
  "rdp points epsilon =
     (if length points < 3 then Some points
      else if js_gt (fst (farthest points)) epsilon then
        Option.bind (rdp (take (snd (farthest points) + 1) points) epsilon) (\<lambda>recResults1.
        Option.bind (rdp (drop (snd (farthest points)) points) epsilon) (\<lambda>recResults2.
        Some (butlast recResults1 @ recResults2)))
      else Some [points ! 0, points ! (length points - 1)])"

section \<open>Classification\<close>

definition dist_p :: "real Point \<Rightarrow> real Point \<Rightarrow> real" where
  "dist_p p1 p2 = sqrt ((px p1 - px p2)\<^sup>2 + (py p1 - py p2)\<^sup>2)"

definition isSquare :: "real Point list \<Rightarrow> bool" where
  "isSquare vertices =
     (if length vertices \<noteq> 4 then False
      else
        let d1 = dist_p (vertices ! 0) (vertices ! 1);
            d2 = dist_p (vertices ! 1) (vertices ! 2);
            d3 = dist_p (vertices ! 2) (vertices ! 3);
            d4 = dist_p (vertices ! 3) (vertices ! 0);
            minSide = min (min (min d1 d2) d3) d4;
            maxSide = max (max (max d1 d2) d3) d4
        in js_lt (js_div (Num maxSide) (Num minSide)) (Num 1.2))"

text \<open>
  The branch on the number of vertices: the label and the confidence, or \<open>None\<close> when
  \<open>type\<close> stays \<open>null\<close>.
\<close>

definition classify :: "real Point list \<Rightarrow> number \<Rightarrow> (string \<times> number) option" where
  "classify vertices compactness =
     (let v = length vertices in
      if v = 10 then Some (''star'', Num 0.85)
      else if v = 5 then Some (''pentagon'', Num 0.85)
      else if v = 3 then
        (if js_gt compactness (Num 0.75) then Some (''square'', Num 0.7)
         else Some (''triangle'', Num 0.85))
      else if v = 4 then
        (if isSquare vertices then Some (''square'', Num 0.9)
         else Some (''rectangle'', Num 0.9))
      else if js_gt compactness (Num 0.76) then Some (''square'', Num 0.65)
      else if js_gt compactness (Num 0.5) then Some (''rectangle'', Num 0.65)
      else None)"

definition compactness_of :: "nat \<Rightarrow> nat \<Rightarrow> number" where
  "compactness_of blobArea perimeterLength =
     js_div (Num (4 * Math_PI * real blobArea)) (Num (real (perimeterLength * perimeterLength)))"

text \<open>
  The body of the loop over the blobs: \<open>Some (Inr None)\<close> is \<open>continue\<close> or a blob without
  a label, \<open>Some (Inr (Some s))\<close> is \<open>shapes.push(s)\<close>, \<open>Some (Inl e)\<close> an exception, \<open>None\<close>
  a computation that never returns.
\<close>

definition processBlob ::
  "int Point list \<Rightarrow> nat \<Rightarrow> nat \<Rightarrow> (error + DetectedShape option) option" where
  "processBlob blob width height =
     (if length blob < 100 then Some (Inr None)
      else
        (case traceContour blob width height of
           None \<Rightarrow> None
         | Some (Inl e) \<Rightarrow> Some (Inl e)
         | Some (Inr orderedPerimeter) \<Rightarrow>
             (let perimeterLength = length orderedPerimeter;
                  compactness = compactness_of (length blob) perimeterLength
              in
                if js_lt compactness (Num 0.2) then Some (Inr None)
                else if js_gt compactness (Num 0.95) then
                  Some (Inr (Some \<lparr>type = ''circle'', confidence = js_min compactness (Num 1),
                                    boundingBox = calculateBoundingBox blob,
                                    center = calculateCentroid blob, area = length blob\<rparr>))
                else
                  (case rdp (map (map_Point real_of_int) orderedPerimeter)
                            (Num (real perimeterLength * 0.042)) of
                     None \<Rightarrow> None
                   | Some vertices \<Rightarrow>
                       (case classify vertices compactness of
                          None \<Rightarrow> Some (Inr None)
                        | Some tc \<Rightarrow>
                            Some (Inr (Some \<lparr>type = fst tc, confidence = snd tc,
                                              boundingBox = calculateBoundingBox blob,
                                              center = calculateCentroid blob,
                                              area = length blob\<rparr>)))))))"

fun detectLoop ::
  "int Point list list \<Rightarrow> nat \<Rightarrow> nat \<Rightarrow> DetectedShape list \<Rightarrow> (error + DetectedShape list) option" where
  "detectLoop [] width height found = Some (Inr found)"
| "detectLoop (blob # rest) width height found =
     (case processBlob blob width height of
        None \<Rightarrow> None
      | Some (Inl e) \<Rightarrow> Some (Inl e)
      | Some (Inr None) \<Rightarrow> detectLoop rest width height found
      | Some (Inr (Some s)) \<Rightarrow> detectLoop rest width height (found @ [s]))"

section \<open>The pipeline\<close>

text \<open>
  \<open>detectShapes\<close>.  \<open>startTime\<close> and \<open>endTime\<close> are the two readings of
  \<open>performance.now()\<close>, the only input besides the image.  The source has no \<open>throw\<close>
  and no validation of its argument.
\<close>

definition detectShapes :: "real \<Rightarrow> real \<Rightarrow> ImageData \<Rightarrow> (error + DetectionResult) option" where
  "detectShapes startTime endTime imageData =
     (let width = img_width imageData;
          height = img_height imageData;
          grayData = toGrayscale imageData;
          binaryData = otsuBinarize grayData width height
      in case findContours binaryData width height of
           None \<Rightarrow> None
         | Some contours \<Rightarrow>
             (case detectLoop contours width height [] of
                None \<Rightarrow> None
              | Some (Inl e) \<Rightarrow> Some (Inl e)
              | Some (Inr found) \<Rightarrow>
                  Some (Inr \<lparr>shapes = found, processingTime = endTime - startTime,
                             imageWidth = img_width imageData,
                             imageHeight = img_height imageData\<rparr>)))"

section \<open>Vocabulary of the threshold sweep\<close>

text \<open>
  The background weight and background sum after bin \<open>t\<close>, the candidates the sweep evaluates
  (those it neither skips nor fails to reach) and the between-class variance
  \<open>wB * wF * (mB - mF)\<^sup>2\<close> of a candidate.
\<close>

definition weightB :: "nat list \<Rightarrow> nat \<Rightarrow> int" where
  "weightB histogram t = (\<Sum>i\<le>t. int (histogram ! i))"

definition sumUpTo :: "nat list \<Rightarrow> nat \<Rightarrow> int" where
  "sumUpTo histogram t = (\<Sum>i\<le>t. int i * int (histogram ! i))"

definition valid_candidate :: "nat list \<Rightarrow> int \<Rightarrow> nat \<Rightarrow> bool" where
  "valid_candidate histogram pixelCount t \<longleftrightarrow>
     t < 256 \<and> weightB histogram t \<noteq> 0 \<and>
     (\<forall>u\<in>{..t}. weightB histogram u \<noteq> 0 \<longrightarrow> pixelCount - weightB histogram u \<noteq> 0)"

definition betweenClassVariance :: "nat list \<Rightarrow> int \<Rightarrow> int \<Rightarrow> nat \<Rightarrow> real" where
  "betweenClassVariance histogram pixelCount totalIntensity t =
     (let b = weightB histogram t;
          f = pixelCount - b;
          m1 = real_of_int (sumUpTo histogram t) / real_of_int b;
          m2 = real_of_int (totalIntensity - sumUpTo histogram t) / real_of_int f
      in real_of_int b * real_of_int f * (m1 - m2) * (m1 - m2))"



section \<open>Vocabulary of the simplification\<close>

text \<open>The order of the numbers other than \<open>NaN\<close>.\<close>

definition js_le :: "number \<Rightarrow> number \<Rightarrow> bool" where
  "js_le a b \<longleftrightarrow> a \<noteq> NaN \<and> b \<noteq> NaN \<and> \<not> js_lt b a"

text \<open>
  The search for the farthest point as a scan of the list of distances: \<open>i\<close> is the index of
  the next distance, the state is the pair \<open>(dmax, index)\<close>.
\<close>

fun scan_max :: "number list \<Rightarrow> nat \<Rightarrow> number \<times> nat \<Rightarrow> number \<times> nat" where
  "scan_max [] i s = s"
| "scan_max (d # ds) i s = scan_max ds (Suc i) (if js_gt d (fst s) then (d, i) else s)"

text \<open>A tolerance that is not negative: zero, positive, \<open>Infinity\<close> or \<open>NaN\<close>.\<close>

definition not_negative :: "number \<Rightarrow> bool" where
  "not_negative epsilon \<longleftrightarrow> \<not> js_lt epsilon (Num 0)"

section \<open>Vocabulary of the component extraction\<close>

text \<open>
  The pixels of a \<open>width \<times> height\<close> grid, a grid of these dimensions, the foreground
  pixels of a mask and the pixels marked in \<open>visited\<close>.
\<close>

definition in_bounds :: "nat \<Rightarrow> nat \<Rightarrow> int Point \<Rightarrow> bool" where
  "in_bounds width height p \<longleftrightarrow> 0 \<le> px p \<and> px p < int width \<and> 0 \<le> py p \<and> py p < int height"

definition dims :: "'a list list \<Rightarrow> nat \<Rightarrow> nat \<Rightarrow> bool" where
  "dims grid width height \<longleftrightarrow> length grid = height \<and> (\<forall>row\<in>set grid. length row = width)"

definition foreground :: "nat list list \<Rightarrow> nat \<Rightarrow> nat \<Rightarrow> int Point set" where
  "foreground binaryData width height =
     {p. in_bounds width height p \<and> cell binaryData (px p) (py p) = 1}"

definition marked :: "bool list list \<Rightarrow> nat \<Rightarrow> nat \<Rightarrow> int Point set" where
  "marked visited width height = {p. in_bounds width height p \<and> cell visited (px p) (py p)}"

text \<open>
  8-adjacency, the maximal 8-connected region of a pixel \<open>p\<close> within a set \<open>F\<close> (all pixels
  that a chain of adjacent members of \<open>F\<close> links to \<open>p\<close>), and sets that are unions of such
  regions.
\<close>

definition adjacent :: "int Point \<Rightarrow> int Point \<Rightarrow> bool" where
  "adjacent p q \<longleftrightarrow> p \<noteq> q \<and> \<bar>px q - px p\<bar> \<le> 1 \<and> \<bar>py q - py p\<bar> \<le> 1"

definition region :: "int Point set \<Rightarrow> int Point \<Rightarrow> int Point set" where
  "region F p = {q. (p, q) \<in> {(a, b). a \<in> F \<and> b \<in> F \<and> adjacent a b}\<^sup>*}"

definition closed_in :: "int Point set \<Rightarrow> int Point set \<Rightarrow> bool" where
  "closed_in F V \<longleftrightarrow> V \<subseteq> F \<and> (\<forall>a\<in>V. \<forall>b\<in>F. adjacent a b \<longrightarrow> b \<in> V)"

text \<open>The order of the scan: top to bottom, then left to right.\<close>

definition row_major :: "int Point \<Rightarrow> int Point \<Rightarrow> bool" where
  "row_major p q \<longleftrightarrow> py p < py q \<or> (py p = py q \<and> px p < px q)"

definition shift :: "int Point \<Rightarrow> int \<times> int \<Rightarrow> int Point" where
  "shift p d = Point (px p + fst d) (py p + snd d)"

definition pixel :: "nat \<times> nat \<Rightarrow> int Point" where
  "pixel c = Point (int (fst c)) (int (snd c))"

section \<open>Vocabulary of the result\<close>

definition in_unit_interval :: "number \<Rightarrow> bool" where
  "in_unit_interval v = (case v of Num c \<Rightarrow> 0 \<le> c \<and> c \<le> 1 | _ \<Rightarrow> False)"

definition shape_ok :: "DetectedShape \<Rightarrow> bool" where
  "shape_ok s \<longleftrightarrow>
     type s \<in> {''circle'', ''triangle'', ''rectangle'', ''square'', ''pentagon'', ''star''} \<and>
     in_unit_interval (confidence s)"


section \<open>A blob whose contour is never closed\<close>

text \<open>
  An 8-connected blob, in the order in which \<open>floodFill\<close> collects it from the seed
  \<open>(0, 0)\<close>: the pixels \<open>(0, 0)\<close>, \<open>(1, 1)\<close>, \<open>(0, 2)\<close> and the square of the pixels with
  \<open>1 \<le> x \<le> 10\<close> and \<open>3 \<le> y \<le> 12\<close>.
\<close>

definition cycle_blob :: "int Point list" where
  "cycle_blob =
     [Point 0 0, Point 1 1, Point 0 2, Point 1 3, Point 2 3, Point 1 4, Point 2 4, Point 3 3,
      Point 3 4, Point 1 5, Point 2 5, Point 3 5, Point 4 3, Point 4 4, Point 4 5, Point 1 6,
      Point 2 6, Point 3 6, Point 4 6, Point 5 3, Point 5 4, Point 5 5, Point 5 6, Point 1 7,
      Point 2 7, Point 3 7, Point 4 7, Point 5 7, Point 6 3, Point 6 4, Point 6 5, Point 6 6,
      Point 6 7, Point 1 8, Point 2 8, Point 3 8, Point 4 8, Point 5 8, Point 6 8, Point 7 3,
      Point 7 4, Point 7 5, Point 7 6, Point 7 7, Point 7 8, Point 1 9, Point 2 9, Point 3 9,
      Point 4 9, Point 5 9, Point 6 9, Point 7 9, Point 8 3, Point 8 4, Point 8 5, Point 8 6,
      Point 8 7, Point 8 8, Point 8 9, Point 1 10, Point 2 10, Point 3 10, Point 4 10,
      Point 5 10, Point 6 10, Point 7 10, Point 8 10, Point 9 3, Point 9 4, Point 9 5,
      Point 9 6, Point 9 7, Point 9 8, Point 9 9, Point 9 10, Point 1 11, Point 2 11,
      Point 3 11, Point 4 11, Point 5 11, Point 6 11, Point 7 11, Point 8 11, Point 9 11,
      Point 10 3, Point 10 4, Point 10 5, Point 10 6, Point 10 7, Point 10 8, Point 10 9,
      Point 10 10, Point 10 11, Point 1 12, Point 2 12, Point 3 12, Point 4 12, Point 5 12,
      Point 6 12, Point 7 12, Point 8 12, Point 9 12, Point 10 12]"



section \<open>Two images\<close>

text \<open>An image whose pixels are gray and opaque: \<open>R = G = B\<close>, \<open>A = 255\<close>.\<close>

definition gray_image :: "8 word list \<Rightarrow> nat \<Rightarrow> nat \<Rightarrow> ImageData" where
  "gray_image levels width height =
     \<lparr>img_data = concat (map (\<lambda>g. [g, g, g, 255]) levels), img_width = width, img_height = height\<rparr>"

text \<open>
  An image of 11 by 10 pixels: a black square of 10 by 10 pixels, one pixel of level 1 and nine
  white pixels; its mask, its only blob in the order of the flood fill, and the contour of
  that blob.
\<close>

definition square_levels :: "8 word list" where
  "square_levels =
     [
      0, 0, 0, 0, 0, 0, 0, 0, 0, 0, 1,
      0, 0, 0, 0, 0, 0, 0, 0, 0, 0, 255,
      0, 0, 0, 0, 0, 0, 0, 0, 0, 0, 255,
      0, 0, 0, 0, 0, 0, 0, 0, 0, 0, 255,
      0, 0, 0, 0, 0, 0, 0, 0, 0, 0, 255,
      0, 0, 0, 0, 0, 0, 0, 0, 0, 0, 255,
      0, 0, 0, 0, 0, 0, 0, 0, 0, 0, 255,
      0, 0, 0, 0, 0, 0, 0, 0, 0, 0, 255,
      0, 0, 0, 0, 0, 0, 0, 0, 0, 0, 255,
      0, 0, 0, 0, 0, 0, 0, 0, 0, 0, 255]"

definition square_mask :: "nat list list" where
  "square_mask =
     [
      [1, 1, 1, 1, 1, 1, 1, 1, 1, 1, 0],
      [1, 1, 1, 1, 1, 1, 1, 1, 1, 1, 0],
      [1, 1, 1, 1, 1, 1, 1, 1, 1, 1, 0],
      [1, 1, 1, 1, 1, 1, 1, 1, 1, 1, 0],
      [1, 1, 1, 1, 1, 1, 1, 1, 1, 1, 0],
      [1, 1, 1, 1, 1, 1, 1, 1, 1, 1, 0],
      [1, 1, 1, 1, 1, 1, 1, 1, 1, 1, 0],
      [1, 1, 1, 1, 1, 1, 1, 1, 1, 1, 0],
      [1, 1, 1, 1, 1, 1, 1, 1, 1, 1, 0],
      [1, 1, 1, 1, 1, 1, 1, 1, 1, 1, 0]]"

definition square_blob :: "int Point list" where
  "square_blob =
     [Point 0 0, Point 1 0, Point 0 1, Point 1 1, Point 2 0, Point 2 1, Point 0 2, Point 1 2,
      Point 2 2, Point 3 0, Point 3 1, Point 3 2, Point 0 3, Point 1 3, Point 2 3, Point 3 3,
      Point 4 0, Point 4 1, Point 4 2, Point 4 3, Point 0 4, Point 1 4, Point 2 4, Point 3 4,
      Point 4 4, Point 5 0, Point 5 1, Point 5 2, Point 5 3, Point 5 4, Point 0 5, Point 1 5,
      Point 2 5, Point 3 5, Point 4 5, Point 5 5, Point 6 0, Point 6 1, Point 6 2, Point 6 3,
      Point 6 4, Point 6 5, Point 0 6, Point 1 6, Point 2 6, Point 3 6, Point 4 6, Point 5 6,
      Point 6 6, Point 7 0, Point 7 1, Point 7 2, Point 7 3, Point 7 4, Point 7 5, Point 7 6,
      Point 0 7, Point 1 7, Point 2 7, Point 3 7, Point 4 7, Point 5 7, Point 6 7, Point 7 7,
      Point 8 0, Point 8 1, Point 8 2, Point 8 3, Point 8 4, Point 8 5, Point 8 6, Point 8 7,
      Point 0 8, Point 1 8, Point 2 8, Point 3 8, Point 4 8, Point 5 8, Point 6 8, Point 7 8,
      Point 8 8, Point 9 0, Point 9 1, Point 9 2, Point 9 3, Point 9 4, Point 9 5, Point 9 6,
      Point 9 7, Point 9 8, Point 0 9, Point 1 9, Point 2 9, Point 3 9, Point 4 9, Point 5 9,
      Point 6 9, Point 7 9, Point 8 9, Point 9 9]"

definition square_perimeter :: "int Point list" where
  "square_perimeter =
     [Point 0 0, Point 1 0, Point 2 0, Point 3 0, Point 4 0, Point 5 0, Point 6 0, Point 7 0,
      Point 8 0, Point 9 0, Point 9 1, Point 9 2, Point 9 3, Point 9 4, Point 9 5, Point 9 6,
      Point 9 7, Point 9 8, Point 9 9, Point 8 9, Point 7 9, Point 6 9, Point 5 9, Point 4 9,
      Point 3 9, Point 2 9, Point 1 9, Point 0 9, Point 0 8, Point 0 7, Point 0 6, Point 0 5,
      Point 0 4, Point 0 3, Point 0 2, Point 0 1]"

definition square_shape :: DetectedShape where
  "square_shape =
     \<lparr>type = ''circle'', confidence = js_min (compactness_of 100 36) (Num 1),
      boundingBox = calculateBoundingBox square_blob, center = calculateCentroid square_blob,
      area = 100\<rparr>"

text \<open>
  An image of 11 by 13 pixels whose only blob is \<^const>\<open>cycle_blob\<close>: the pixels of the blob
  are black, one pixel has level 1, the others are white.
\<close>

definition cycle_levels :: "8 word list" where
  "cycle_levels =
     [
      0, 255, 255, 255, 255, 255, 255, 255, 255, 255, 1,
      255, 0, 255, 255, 255, 255, 255, 255, 255, 255, 255,
      0, 255, 255, 255, 255, 255, 255, 255, 255, 255, 255,
      255, 0, 0, 0, 0, 0, 0, 0, 0, 0, 0,
      255, 0, 0, 0, 0, 0, 0, 0, 0, 0, 0,
      255, 0, 0, 0, 0, 0, 0, 0, 0, 0, 0,
      255, 0, 0, 0, 0, 0, 0, 0, 0, 0, 0,
      255, 0, 0, 0, 0, 0, 0, 0, 0, 0, 0,
      255, 0, 0, 0, 0, 0, 0, 0, 0, 0, 0,
      255, 0, 0, 0, 0, 0, 0, 0, 0, 0, 0,
      255, 0, 0, 0, 0, 0, 0, 0, 0, 0, 0,
      255, 0, 0, 0, 0, 0, 0, 0, 0, 0, 0,
      255, 0, 0, 0, 0, 0, 0, 0, 0, 0, 0]"

definition cycle_mask :: "nat list list" where
  "cycle_mask =
     [
      [1, 0, 0, 0, 0, 0, 0, 0, 0, 0, 0],
      [0, 1, 0, 0, 0, 0, 0, 0, 0, 0, 0],
      [1, 0, 0, 0, 0, 0, 0, 0, 0, 0, 0],
      [0, 1, 1, 1, 1, 1, 1, 1, 1, 1, 1],
      [0, 1, 1, 1, 1, 1, 1, 1, 1, 1, 1],
      [0, 1, 1, 1, 1, 1, 1, 1, 1, 1, 1],
      [0, 1, 1, 1, 1, 1, 1, 1, 1, 1, 1],
      [0, 1, 1, 1, 1, 1, 1, 1, 1, 1, 1],
      [0, 1, 1, 1, 1, 1, 1, 1, 1, 1, 1],
      [0, 1, 1, 1, 1, 1, 1, 1, 1, 1, 1],
      [0, 1, 1, 1, 1, 1, 1, 1, 1, 1, 1],
      [0, 1, 1, 1, 1, 1, 1, 1, 1, 1, 1],
      [0, 1, 1, 1, 1, 1, 1, 1, 1, 1, 1]]"


section \<open>The binary mask\<close>

lemma binarize_nth:
  "y < height \<Longrightarrow> x < width \<Longrightarrow>
   binarize grayData width height threshold ! y ! x =
     (if below grayData (y * width + x) threshold then 1 else 0)"
  by (simp add: binarize_def)

lemma index_in_buffer:
  assumes "x < width" "y < height"
  shows "y * width + x < width * (height::nat)"
proof -
  have "y * width + x < (y + 1) * width" using assms by simp
  also have "\<dots> \<le> height * width" using assms by (intro mult_le_mono1) simp
  finally show ?thesis by (simp add: mult.commute)
qed

text \<open>
  Claim C9.  In a buffer of \<open>width * height\<close> intensities, the mask has value 1 at a pixel
  if and only if the intensity of the pixel is strictly below the Otsu threshold, and value
  0 otherwise.
\<close>

theorem otsuBinarize_foreground_iff:
  assumes "length grayData = width * height" and "x < width" and "y < height"
  shows "(otsuBinarize grayData width height ! y ! x = 1 \<longleftrightarrow>
            unat (grayData ! (y * width + x)) < otsuThreshold grayData width height) \<and>
         (otsuBinarize grayData width height ! y ! x = 0 \<longleftrightarrow>
            \<not> unat (grayData ! (y * width + x)) < otsuThreshold grayData width height)"
  using assms index_in_buffer [of x width y height]
  by (simp add: otsuBinarize_def binarize_nth below_def)

lemma otsuBinarize_example: "otsuBinarize [0, 1, 255, 255] 2 2 = [[1, 0], [0, 0]]"
  by code_simp

theorem otsuBinarize_foreground_iff_witness:
  "length [0, 1, 255, 255 :: 8 word] = 2 * 2 \<and> (0::nat) < 2 \<and> (0::nat) < 2 \<and>
   (otsuBinarize [0, 1, 255, 255] 2 2 ! 0 ! 0 = 1 \<longleftrightarrow>
      unat ([0, 1, 255, 255 :: 8 word] ! (0 * 2 + 0)) < otsuThreshold [0, 1, 255, 255] 2 2) \<and>
   otsuBinarize [0, 1, 255, 255] 2 2 ! 0 ! 0 = 1"
  using otsuBinarize_foreground_iff [of "[0, 1, 255, 255]" 2 2 0 0]
  by (simp add: otsuBinarize_example)

section \<open>The distance to a degenerate line\<close>

text \<open>
  Claim C3, as stated: for coincident end points the distance is zero.  It is not: the
  function divides zero by zero.
\<close>

theorem pointLineDistance_coincident_counterexample:
  "pointLineDistance (Point 3 4) (Point 1 2) (Point 1 2) \<noteq> Num 0"
  by (simp add: pointLineDistance_def)

text \<open>
  Claim C3, amended.  \<open>pointLineDistance\<close> has no guard: for coincident end points it
  returns \<open>NaN\<close> for every point, without raising.  The test \<open>d > dmax\<close> of the
  simplification is false for this value, whatever \<open>dmax\<close> is, so such a point is never
  selected as the farthest one.
\<close>

theorem pointLineDistance_coincident_NaN:
  "pointLineDistance p q q = NaN \<and> \<not> js_gt (pointLineDistance p q q) dmax"
  by (cases dmax) (simp_all add: pointLineDistance_def js_gt_def)

section \<open>Independence of the clock\<close>


section \<open>The threshold sweep\<close>


lemma weightB_Suc: "weightB h (Suc t) = weightB h t + int (h ! Suc t)"
  by (simp add: weightB_def)

lemma sumUpTo_Suc: "sumUpTo h (Suc t) = sumUpTo h t + int (Suc t) * int (h ! Suc t)"
  by (simp add: sumUpTo_def)

lemma otsuLoop_done: "\<not> t < 256 \<Longrightarrow> otsuLoop h n tot t s = s"
  by (subst otsuLoop.simps) simp

lemma otsuLoop_skip:
  "t < 256 \<Longrightarrow> wB s + int (h ! t) = 0 \<Longrightarrow>
   otsuLoop h n tot t s = otsuLoop h n tot (Suc t) (s\<lparr>wB := 0\<rparr>)"
  by (subst otsuLoop.simps) simp

lemma otsuLoop_stop:
  "t < 256 \<Longrightarrow> wB s + int (h ! t) \<noteq> 0 \<Longrightarrow> n - (wB s + int (h ! t)) = 0 \<Longrightarrow>
   otsuLoop h n tot t s = s\<lparr>wB := wB s + int (h ! t), wF := 0\<rparr>"
  by (subst otsuLoop.simps) (simp add: Let_def)





subsection \<open>The histogram\<close>

lemma histogram_fold_length: "length (fold count_bin g h0) = length h0"
  by (induction g arbitrary: h0) (simp_all add: count_bin_def)

lemma histogram_of_length: "length (histogram_of g) = 256"
  by (simp add: histogram_of_def histogram_fold_length)

lemma unat_byte_less: "unat (v :: 8 word) < 256"
  using unsigned_less [of v] by simp

lemma sum_bump:
  assumes "length h0 = 256" and "k < 256"
  shows "(\<Sum>i<256. f i * int (h0[k := h0 ! k + 1] ! i)) = (\<Sum>i<256. f i * int (h0 ! i)) + f k"
proof -
  have "(\<Sum>i<256. f i * int (h0[k := h0 ! k + 1] ! i)) =
        (\<Sum>i<256. f i * int (h0 ! i) + (if i = k then f i else 0))"
    using assms by (intro sum.cong) (auto simp: nth_list_update algebra_simps)
  also have "\<dots> = (\<Sum>i<256. f i * int (h0 ! i)) + (\<Sum>i<256. if i = k then f i else 0)"
    by (rule sum.distrib)
  also have "(\<Sum>i<256. if i = k then f i else 0) = f k"
    using assms(2) by (simp add: sum.delta')
  finally show ?thesis .
qed

lemma histogram_fold_sum:
  assumes "length h0 = 256"
  shows "(\<Sum>i<256. f i * int (fold count_bin g h0 ! i)) =
         (\<Sum>i<256. f i * int (h0 ! i)) + (\<Sum>v\<leftarrow>g. f (unat v))"
  using assms
proof (induction g arbitrary: h0)
  case Nil
  then show ?case by simp
next
  case (Cons v g)
  have "length (count_bin v h0) = 256" using Cons.prems by (simp add: count_bin_def)
  from Cons.IH [OF this] show ?case
    using sum_bump [OF Cons.prems unat_byte_less, of f v] by (simp add: count_bin_def)
qed

lemma histogram_total: "(\<Sum>i<256. int (histogram_of g ! i)) = int (length g)"
  using histogram_fold_sum [of "replicate 256 0" "\<lambda>_. 1" g]
  by (simp add: histogram_of_def sum_list_triv)




subsection \<open>Every candidate separates two classes\<close>



subsection \<open>The candidates\<close>

lemma weightB_mono: "u \<le> t \<Longrightarrow> weightB h u \<le> weightB h t"
  unfolding weightB_def by (intro sum_mono2) auto

lemma weightB_le_total: "t < 256 \<Longrightarrow> weightB h t \<le> (\<Sum>i<256. int (h ! i))"
  unfolding weightB_def by (intro sum_mono2) auto

text \<open>
  On a buffer of \<open>width * height\<close> intensities the candidates are the thresholds with
  non-zero background weight and non-zero foreground weight.
\<close>

lemma valid_candidate_iff:
  assumes "length grayData = width * height"
  shows "valid_candidate (histogram_of grayData) (int (width * height)) t \<longleftrightarrow>
         t < 256 \<and> weightB (histogram_of grayData) t \<noteq> 0 \<and>
         int (width * height) - weightB (histogram_of grayData) t \<noteq> 0"
proof -
  let ?h = "histogram_of grayData"
  have n: "int (width * height) = (\<Sum>i<256. int (?h ! i))"
    using assms by (simp add: histogram_total)
  have "int (width * height) - weightB ?h u \<noteq> 0"
    if "t < 256" "int (width * height) - weightB ?h t \<noteq> 0" "u \<le> t" for u
    using that weightB_mono [of u t ?h] weightB_le_total [of t ?h] n by auto
  then show ?thesis by (auto simp: valid_candidate_def)
qed



lemma otsu_example_histogram: "histogram_of [0, 1, 255, 255] = 1 # 1 # replicate 253 0 @ [2]"
  by code_simp

lemma otsu_example_total: "totalIntensity_of [0, 1, 255, 255] = 511"
  by code_simp

lemma otsu_example_weights:
  "weightB (histogram_of [0, 1, 255, 255]) 0 = 1"
  "weightB (histogram_of [0, 1, 255, 255]) 1 = 2"
  "weightB (histogram_of [0, 1, 255, 255]) 2 = 2"
  "sumUpTo (histogram_of [0, 1, 255, 255]) 0 = 0"
  "sumUpTo (histogram_of [0, 1, 255, 255]) 1 = 1"
  "sumUpTo (histogram_of [0, 1, 255, 255]) 2 = 1"
  by (simp_all add: weightB_def sumUpTo_def otsu_example_histogram eval_nat_numeral)


lemma otsu_example_variances:
  "betweenClassVariance (histogram_of [0, 1, 255, 255]) (int (2 * 2))
     (int (totalIntensity_of [0, 1, 255, 255])) 0 = 261121 / 3"
  "betweenClassVariance (histogram_of [0, 1, 255, 255]) (int (2 * 2))
     (int (totalIntensity_of [0, 1, 255, 255])) 1 = 259081"
  "betweenClassVariance (histogram_of [0, 1, 255, 255]) (int (2 * 2))
     (int (totalIntensity_of [0, 1, 255, 255])) 2 = 259081"
  by (simp_all add: betweenClassVariance_def otsu_example_weights otsu_example_total
        del: One_nat_def)


section \<open>Images of a single intensity\<close>

lemma toGrayscale_length:
  "length (toGrayscale imageData) = img_width imageData * img_height imageData"
proof -
  have "length (fold (\<lambda>j grayData. grayData[j := f j]) js g0) = length g0" for f js and g0 :: "8 word list"
    by (induction js arbitrary: g0) simp_all
  then show ?thesis by (simp add: toGrayscale_def)
qed

lemma histogram_fold_nth:
  "length h0 = 256 \<Longrightarrow> i < 256 \<Longrightarrow>
   fold count_bin g h0 ! i = h0 ! i + length (filter (\<lambda>v. unat v = i) g)"
proof (induction g arbitrary: h0)
  case Nil
  then show ?case by simp
next
  case (Cons v g)
  have "length (count_bin v h0) = 256" using Cons.prems by (simp add: count_bin_def)
  from Cons.IH [OF this Cons.prems(2)] show ?case
    using Cons.prems unat_byte_less [of v] by (simp add: count_bin_def nth_list_update)
qed

lemma histogram_single:
  assumes "\<forall>p\<in>set g. p = v" and "i < 256"
  shows "histogram_of g ! i = (if i = unat v then length g else 0)"
proof -
  have "filter (\<lambda>p. unat p = i) g = (if i = unat v then g else [])"
    using assms(1) by (induction g) auto
  then show ?thesis
    using assms(2) by (simp add: histogram_of_def histogram_fold_nth)
qed

lemma otsuLoop_skip_run:
  assumes "t \<le> k" and "k \<le> 256" and "\<forall>i. t \<le> i \<and> i < k \<longrightarrow> h ! i = 0" and "wB s = 0"
  shows "otsuLoop h n tot t s = otsuLoop h n tot k s"
  using assms
proof (induction "k - t" arbitrary: t)
  case 0
  then show ?case by simp
next
  case (Suc d)
  then have t: "t < 256" "t < k" and ht: "h ! t = 0" by auto
  have s: "s\<lparr>wB := 0\<rparr> = s" using Suc.prems(4) by simp
  have "otsuLoop h n tot t s = otsuLoop h n tot (Suc t) s"
    using otsuLoop_skip [of t s h n tot] t ht Suc.prems(4) s by simp
  also have "\<dots> = otsuLoop h n tot k s"
    using Suc.hyps(2) Suc.prems t by (intro Suc.hyps(1)) auto
  finally show ?case .
qed

lemma otsuSweep_single:
  assumes "\<forall>p\<in>set g. p = v" and "length g = width * height"
  shows "otsuSweep g width height = otsu_init\<lparr>wB := int (width * height)\<rparr>"
proof (cases "length g = 0")
  case True
  then have "\<forall>i. 0 \<le> i \<and> i < 256 \<longrightarrow> histogram_of g ! i = 0"
    using histogram_single [OF assms(1)] by simp
  then have "otsuLoop (histogram_of g) (int (width * height)) (int (totalIntensity_of g)) 0 otsu_init
             = otsuLoop (histogram_of g) (int (width * height)) (int (totalIntensity_of g)) 256 otsu_init"
    by (intro otsuLoop_skip_run) (simp_all add: otsu_init_def)
  then show ?thesis
    using True assms(2) by (simp add: otsuSweep_def otsuLoop_done otsu_init_def)
next
  case False
  have v: "unat v < 256" by (rule unat_byte_less)
  have "\<forall>i. 0 \<le> i \<and> i < unat v \<longrightarrow> histogram_of g ! i = 0"
    using histogram_single [OF assms(1)] v by simp
  then have "otsuLoop (histogram_of g) (int (width * height)) (int (totalIntensity_of g)) 0 otsu_init
             = otsuLoop (histogram_of g) (int (width * height)) (int (totalIntensity_of g)) (unat v) otsu_init"
    using v by (intro otsuLoop_skip_run) (simp_all add: otsu_init_def)
  also have "\<dots> = otsu_init\<lparr>wB := wB otsu_init + int (histogram_of g ! unat v), wF := 0\<rparr>"
    using v False assms(2) histogram_single [OF assms(1) v]
    by (intro otsuLoop_stop) (simp_all add: otsu_init_def)
  finally show ?thesis
    using assms(2) histogram_single [OF assms(1) v]
    by (simp add: otsuSweep_def otsu_init_def)
qed

lemma binarize_zero:
  "binarize g width height 0 = replicate height (replicate width 0)"
  by (simp add: binarize_def below_def map_replicate_const)

lemma scan_order_bounds: "c \<in> set (scan_order width height) \<Longrightarrow> fst c < width \<and> snd c < height"
  by (auto simp: scan_order_def)

lemma findLoop_background:
  assumes "\<forall>c\<in>set cells. cell binaryData (int (fst c)) (int (snd c)) \<noteq> 1"
  shows "findLoop binaryData width height cells visited contours = Some contours"
  using assms by (induction cells) simp_all

lemma findContours_background:
  "findContours (replicate height (replicate width 0)) width height = Some []"
  unfolding findContours_def
  by (rule findLoop_background) (auto simp: cell_def dest: scan_order_bounds)

text \<open>
  Claim C8.  If all pixels of an image map to one grayscale intensity, the sweep skips every
  bin below that intensity and stops at it: it ends in its initial state with only \<open>wB\<close>
  changed, so \<open>mB\<close> and \<open>mF\<close> were never computed and no division, by zero or otherwise,
  took place.  The threshold is 0, the mask is all background, and \<open>detectShapes\<close> returns
  a result with an empty list of shapes.
\<close>

theorem single_intensity_image:
  assumes "\<forall>p\<in>set (toGrayscale imageData). p = v"
  defines "g \<equiv> toGrayscale imageData"
    and "width \<equiv> img_width imageData"
    and "height \<equiv> img_height imageData"
  shows "otsuSweep g width height = otsu_init\<lparr>wB := int (width * height)\<rparr> \<and>
         otsuThreshold g width height = 0 \<and>
         otsuBinarize g width height = replicate height (replicate width 0) \<and>
         detectShapes startTime endTime imageData =
           Some (Inr \<lparr>shapes = [], processingTime = endTime - startTime,
                      imageWidth = width, imageHeight = height\<rparr>)"
proof -
  have len: "length g = width * height"
    by (simp add: g_def width_def height_def toGrayscale_length)
  have sweep: "otsuSweep g width height = otsu_init\<lparr>wB := int (width * height)\<rparr>"
    using assms(1) len unfolding g_def by (rule otsuSweep_single)
  then have thr: "otsuThreshold g width height = 0"
    by (simp add: otsuThreshold_def otsu_init_def)
  then have mask: "otsuBinarize g width height = replicate height (replicate width 0)"
    by (simp add: otsuBinarize_def binarize_zero)
  have "detectShapes startTime endTime imageData =
          Some (Inr \<lparr>shapes = [], processingTime = endTime - startTime,
                     imageWidth = width, imageHeight = height\<rparr>)"
    using mask unfolding g_def width_def height_def
    by (simp add: detectShapes_def findContours_background)
  with sweep thr mask show ?thesis by simp
qed

lemma toGrayscale_example:
  "toGrayscale \<lparr>img_data = [5, 5, 5, 255, 5, 5, 5, 255, 5, 5, 5, 255, 5, 5, 5, 255],
                 img_width = 2, img_height = 2\<rparr> = [5, 5, 5, 5]"
  by code_simp

theorem single_intensity_image_witness:
  "toGrayscale \<lparr>img_data = [5, 5, 5, 255, 5, 5, 5, 255, 5, 5, 5, 255, 5, 5, 5, 255],
                 img_width = 2, img_height = 2\<rparr> = [5, 5, 5, 5] \<and>
   otsuThreshold [5, 5, 5, 5] 2 2 = 0 \<and>
   otsuBinarize [5, 5, 5, 5] 2 2 = replicate 2 (replicate 2 0) \<and>
   detectShapes 0 7 \<lparr>img_data = [5, 5, 5, 255, 5, 5, 5, 255, 5, 5, 5, 255, 5, 5, 5, 255],
                     img_width = 2, img_height = 2\<rparr> =
     Some (Inr \<lparr>shapes = [], processingTime = 7, imageWidth = 2, imageHeight = 2\<rparr>)"
proof -
  have "\<forall>p\<in>set (toGrayscale \<lparr>img_data = [5, 5, 5, 255, 5, 5, 5, 255, 5, 5, 5, 255, 5, 5, 5, 255],
                               img_width = 2, img_height = 2\<rparr>). p = 5"
    by (simp add: toGrayscale_example)
  from single_intensity_image [OF this, of 0 7] show ?thesis
    by (simp add: toGrayscale_example)
qed

section \<open>Contour tracing need not terminate\<close>

lemma cycle_blob_start: "foldl topLeft (hd cycle_blob) (tl cycle_blob) = Point 0 0"
  by code_simp

lemma cycle_blob_length: "length cycle_blob = 103"
  by code_simp

lemma cycle_next:
  "findNext cycle_blob (Point 0 0) 7 = Some 3"
  "findNext cycle_blob (Point 1 1) 2 = Some 5"
  "findNext cycle_blob (Point 0 2) 4 = Some 1"
  "findNext cycle_blob (Point 1 1) 0 = Some 5"
  by code_simp+

lemma cycle_points:
  "neighbor_at (Point 0 0) 3 = Point 1 1"
  "neighbor_at (Point 1 1) 5 = Point 0 2"
  "neighbor_at (Point 0 2) 1 = Point 1 1"
  by code_simp+

lemma cycle_never_returns:
  assumes "traceLoop blob startPoint currentPoint dir perimeter = Some result"
  shows "blob = cycle_blob \<longrightarrow> startPoint = Point 0 0 \<longrightarrow>
         (currentPoint, dir) \<notin> {(Point 1 1, 3), (Point 0 2, 5), (Point 1 1, 1)}"
proof (rule traceLoop.raw_induct
    [where P = "\<lambda>blob startPoint currentPoint dir perimeter result.
       blob = cycle_blob \<longrightarrow> startPoint = Point 0 0 \<longrightarrow>
       (currentPoint, dir) \<notin> {(Point 1 1, 3), (Point 0 2, 5), (Point 1 1, 1)}", OF _ assms])
  fix loop :: "int Point list \<Rightarrow> int Point \<Rightarrow> int Point \<Rightarrow> nat \<Rightarrow> int Point list \<Rightarrow> int Point list option"
    and blob startPoint currentPoint dir perimeter result
  assume IH: "\<And>blob startPoint currentPoint dir perimeter result.
      loop blob startPoint currentPoint dir perimeter = Some result \<Longrightarrow>
      blob = cycle_blob \<longrightarrow> startPoint = Point 0 0 \<longrightarrow>
      (currentPoint, dir) \<notin> {(Point 1 1, 3), (Point 0 2, 5), (Point 1 1, 1)}"
    and body: "(case findNext blob currentPoint ((dir + 7) mod 8) of
        None \<Rightarrow> Some (perimeter @ [currentPoint])
      | Some checkDir \<Rightarrow>
          let nextPoint = neighbor_at currentPoint checkDir
          in if px nextPoint \<noteq> px startPoint \<or> py nextPoint \<noteq> py startPoint
             then loop blob startPoint nextPoint checkDir (perimeter @ [currentPoint])
             else Some (perimeter @ [currentPoint])) = Some result"
  show "blob = cycle_blob \<longrightarrow> startPoint = Point 0 0 \<longrightarrow>
        (currentPoint, dir) \<notin> {(Point 1 1, 3), (Point 0 2, 5), (Point 1 1, 1)}"
  proof (intro impI notI)
    assume b: "blob = cycle_blob" and s: "startPoint = Point 0 0"
      and c: "(currentPoint, dir) \<in> {(Point 1 1, 3), (Point 0 2, 5), (Point 1 1, 1)}"
    from c consider "currentPoint = Point 1 1" "dir = 3" | "currentPoint = Point 0 2" "dir = 5"
      | "currentPoint = Point 1 1" "dir = 1"
      by auto
    then show False
    proof cases
      case 1
      with body b s have "loop cycle_blob (Point 0 0) (Point 0 2) 5 (perimeter @ [Point 1 1]) = Some result"
        by (simp add: cycle_next cycle_points del: One_nat_def)
      from IH [OF this] show False by simp
    next
      case 2
      with body b s have "loop cycle_blob (Point 0 0) (Point 1 1) 1 (perimeter @ [Point 0 2]) = Some result"
        by (simp add: cycle_next cycle_points del: One_nat_def)
      from IH [OF this] show False by simp
    next
      case 3
      with body b s have "loop cycle_blob (Point 0 0) (Point 0 2) 5 (perimeter @ [Point 1 1]) = Some result"
        by (simp add: cycle_next cycle_points del: One_nat_def)
      from IH [OF this] show False by simp
    qed
  qed
qed

lemma cycle_blob_nonempty: "cycle_blob = hd cycle_blob # tl cycle_blob"
  by (simp add: cycle_blob_def)

lemma cycle_trace_diverges: "traceContour cycle_blob 11 13 = None"
proof -
  have "traceLoop cycle_blob (Point 0 0) (Point 1 1) 3 [Point 0 0] = None"
    using cycle_never_returns [of cycle_blob "Point 0 0" "Point 1 1" 3 "[Point 0 0]"]
    by (cases "traceLoop cycle_blob (Point 0 0) (Point 1 1) 3 [Point 0 0]") auto
  then have "traceLoop cycle_blob (Point 0 0) (Point 0 0) 0 [] = None"
    using cycle_next(1) by (subst traceLoop.simps) (simp add: cycle_points del: One_nat_def)
  then show ?thesis
    using cycle_blob_start
    by (cases cycle_blob) (simp_all add: traceContour_def cycle_blob_def)
qed

text \<open>
  Claim C5 says that the tracing loop ends for every non-empty blob.  For this blob of 103
  pixels it does not: the second and the third point are visited in turn for ever, and the
  start point, which lies counter-clockwise behind the direction the search begins with, is
  never the first neighbour found.
\<close>

theorem traceContour_runs_forever: "traceContour cycle_blob 11 13 = None"
  by (rule cycle_trace_diverges)

section \<open>Simplification: subsequence, end points, idempotence\<close>

lemma js_lt_NaN_right [simp]: "\<not> js_lt a NaN"
  by (cases a) auto

lemma js_lt_trans: "js_lt a b \<Longrightarrow> js_lt b c \<Longrightarrow> js_lt a c"
  by (cases a; cases b; cases c) auto

lemma js_lt_not_NaN: "js_lt a b \<Longrightarrow> a \<noteq> NaN \<and> b \<noteq> NaN"
  by (cases a; cases b) auto

lemma js_le_lt_trans: "js_le a b \<Longrightarrow> js_lt b c \<Longrightarrow> js_lt a c"
  unfolding js_le_def by (cases a; cases b; cases c) auto

lemma js_le_trans: "js_le a b \<Longrightarrow> js_le b c \<Longrightarrow> js_le a c"
  unfolding js_le_def by (cases a; cases b; cases c) auto

lemma js_lt_imp_le: "js_lt a b \<Longrightarrow> js_le a b"
  unfolding js_le_def by (cases a; cases b) auto

lemma js_le_refl: "a \<noteq> NaN \<Longrightarrow> js_le a a"
  unfolding js_le_def by (cases a) auto

lemma js_le_not_gt: "js_le a b \<Longrightarrow> \<not> js_gt a b"
  by (simp add: js_le_def js_gt_def)

lemma scan_max_inv:
  assumes "fst s \<noteq> NaN" and "scan_max ds i s = (D, k)"
  shows "D \<noteq> NaN \<and> js_le (fst s) D \<and> (\<forall>d\<in>set ds. d = NaN \<or> js_le d D) \<and>
         (k = snd s \<and> D = fst s \<or> i \<le> k \<and> k < i + length ds)"
  using assms
proof (induction ds arbitrary: i s)
  case Nil
  then show ?case by (auto simp: js_le_refl)
next
  case (Cons d ds)
  show ?case
  proof (cases "js_gt d (fst s)")
    case True
    then have d: "d \<noteq> NaN" "js_lt (fst s) d" using js_lt_not_NaN by (auto simp: js_gt_def)
    from Cons.prems True have "scan_max ds (Suc i) (d, i) = (D, k)" by simp
    from Cons.IH [OF _ this] d(1)
    have *: "D \<noteq> NaN" "js_le d D" "\<forall>x\<in>set ds. x = NaN \<or> js_le x D"
      "k = i \<and> D = d \<or> Suc i \<le> k \<and> k < Suc i + length ds" by auto
    have "js_le (fst s) D" using js_lt_imp_le [OF d(2)] *(2) by (rule js_le_trans)
    with * show ?thesis by auto
  next
    case False
    with Cons.prems have "scan_max ds (Suc i) s = (D, k)" by simp
    from Cons.IH [OF Cons.prems(1) this]
    have *: "D \<noteq> NaN" "js_le (fst s) D" "\<forall>x\<in>set ds. x = NaN \<or> js_le x D"
      "k = snd s \<and> D = fst s \<or> Suc i \<le> k \<and> k < Suc i + length ds" by auto
    have "d = NaN \<or> js_le d D"
    proof (cases "d = NaN")
      case d: False
      then have "js_le d (fst s)" using False Cons.prems(1) by (simp add: js_le_def js_gt_def)
      then show ?thesis using *(2) js_le_trans by blast
    qed simp
    with * show ?thesis by auto
  qed
qed

lemma scan_max_no_update:
  "\<forall>d\<in>set ds. \<not> js_gt d (fst s) \<Longrightarrow> scan_max ds i s = s"
  by (induction ds arbitrary: i) simp_all

lemma scan_max_split:
  assumes "fst s \<noteq> NaN" and "scan_max ds i s = (D, k)" and "i \<le> k" and "snd s < i"
  shows "\<exists>pre post. ds = pre @ D # post \<and> length pre = k - i \<and> js_lt (fst s) D \<and>
           (\<forall>d\<in>set pre. d = NaN \<or> js_lt d D) \<and> (\<forall>d\<in>set post. \<not> js_gt d D)"
  using assms
proof (induction ds arbitrary: i s)
  case Nil
  then show ?case by auto
next
  case (Cons d ds)
  show ?case
  proof (cases "js_gt d (fst s)")
    case True
    then have d: "d \<noteq> NaN" "js_lt (fst s) d" using js_lt_not_NaN by (auto simp: js_gt_def)
    from Cons.prems True have run: "scan_max ds (Suc i) (d, i) = (D, k)" by simp
    from scan_max_inv [OF _ run] d(1)
    have inv: "\<forall>x\<in>set ds. x = NaN \<or> js_le x D" "k = i \<and> D = d \<or> Suc i \<le> k" by auto
    show ?thesis
    proof (cases "k = i")
      case True
      with inv(2) have "D = d" by auto
      moreover have "\<forall>x\<in>set ds. \<not> js_gt x D"
        using inv(1) js_le_not_gt by (auto simp: js_gt_def)
      ultimately show ?thesis using True d(2) by (intro exI [of _ "[]"] exI [of _ ds]) simp
    next
      case False
      with inv(2) have k: "Suc i \<le> k" by auto
      from Cons.IH [OF _ run k] d(1)
      obtain pre post where *: "ds = pre @ D # post" "length pre = k - Suc i" "js_lt d D"
        "\<forall>x\<in>set pre. x = NaN \<or> js_lt x D" "\<forall>x\<in>set post. \<not> js_gt x D" by auto
      have "js_lt (fst s) D" using d(2) *(3) by (rule js_lt_trans)
      with * k show ?thesis by (intro exI [of _ "d # pre"] exI [of _ post]) auto
    qed
  next
    case False
    with Cons.prems have run: "scan_max ds (Suc i) s = (D, k)" by simp
    from scan_max_inv [OF Cons.prems(1) run] Cons.prems(3,4)
    have k: "Suc i \<le> k" by auto
    from Cons.IH [OF Cons.prems(1) run k] Cons.prems(4)
    obtain pre post where *: "ds = pre @ D # post" "length pre = k - Suc i" "js_lt (fst s) D"
      "\<forall>x\<in>set pre. x = NaN \<or> js_lt x D" "\<forall>x\<in>set post. \<not> js_gt x D" by auto
    have "d = NaN \<or> js_lt d D"
    proof (cases "d = NaN")
      case d: False
      then have "js_le d (fst s)" using False Cons.prems(1) by (simp add: js_le_def js_gt_def)
      then show ?thesis using *(3) js_le_lt_trans by blast
    qed simp
    with * k show ?thesis by (intro exI [of _ "d # pre"] exI [of _ post]) auto
  qed
qed

lemma scan_max_result:
  assumes "js_lt (fst s) D" and "\<forall>d\<in>set pre. d = NaN \<or> js_lt d D"
    and "\<forall>d\<in>set post. \<not> js_gt d D"
  shows "scan_max (pre @ D # post) i s = (D, i + length pre)"
  using assms(1,2)
proof (induction pre arbitrary: i s)
  case Nil
  then show ?case using assms(3) by (simp add: js_gt_def scan_max_no_update)
next
  case (Cons d pre)
  define s' where "s' = (if js_gt d (fst s) then (d, i) else s)"
  have "js_lt (fst s') D"
    using Cons.prems by (auto simp: s'_def js_gt_def)
  from Cons.IH [OF this] Cons.prems(2) show ?case
    by (simp add: s'_def)
qed

lemma fold_upt_scan_max:
  assumes "b \<le> length xs"
  shows "fold (\<lambda>i di. let d = g (xs ! i) in if js_gt d (fst di) then (d, i) else di) [a ..< b] s =
         scan_max (map g (take (b - a) (drop a xs))) a s"
  using assms
proof (induction "b - a" arbitrary: a s)
  case 0
  then show ?case by simp
next
  case (Suc n)
  then have ab: "a < b" and n: "n = b - Suc a" by simp_all
  have "take (b - a) (drop a xs) = xs ! a # take (b - Suc a) (drop (Suc a) xs)"
    using ab Suc.prems by (metis Cons_nth_drop_Suc Suc_diff_Suc less_le_trans take_Suc_Cons)
  then show ?case
    using Suc.hyps(1) [OF n Suc.prems] ab by (simp add: upt_conv_Cons Let_def)
qed

lemma farthest_scan:
  "farthest (a # mid @ [z]) = scan_max (map (\<lambda>p. pointLineDistance p a z) mid) 1 (Num 0, 0)"
proof -
  have "farthest (a # mid @ [z]) =
        scan_max (map (\<lambda>p. pointLineDistance p a z)
                   (take (length mid + 1 - 1) (drop 1 (a # mid @ [z])))) 1 (Num 0, 0)"
    unfolding farthest_def
    using fold_upt_scan_max [of "length mid + 1" "a # mid @ [z]"
            "\<lambda>p. pointLineDistance p a z" 1 "(Num 0, 0)"]
    by (simp add: nth_append)
  then show ?thesis by simp
qed

lemma subseq_set_mono: "subseq xs ys \<Longrightarrow> set xs \<subseteq> set ys"
  by (induction rule: list_emb.induct) auto

lemma list_ends:
  assumes "\<not> length points < 3"
  obtains a mid z where "points = a # mid @ [z]" and "mid \<noteq> []"
proof -
  from assms obtain a rest where p: "points = a # rest" by (cases points) auto
  with assms have "rest \<noteq> []" by auto
  then obtain mid z where r: "rest = mid @ [z]" by (cases rest rule: rev_cases) auto
  with p assms have "mid \<noteq> []" by auto
  with p r that show ?thesis by blast
qed

lemma ends_inject:
  "a # mid @ [z] = a' # mid' @ [z'] \<longleftrightarrow> a = a' \<and> mid = mid' \<and> z = z'"
  by auto

lemma rdp_short: "length points < 3 \<Longrightarrow> rdp points epsilon = Some points"
  by (subst rdp.simps) simp

lemma rdp_collapse:
  "mid \<noteq> [] \<Longrightarrow> \<not> js_gt (fst (farthest (a # mid @ [z]))) epsilon \<Longrightarrow>
   rdp (a # mid @ [z]) epsilon = Some [a, z]"
  by (subst rdp.simps) (simp add: nth_append)

lemma rdp_split:
  assumes "mid \<noteq> []" and "farthest (a # mid @ [z]) = (D, k)" and "js_gt D epsilon"
    and "rdp (take (k + 1) (a # mid @ [z])) epsilon = Some r1"
    and "rdp (drop k (a # mid @ [z])) epsilon = Some r2"
  shows "rdp (a # mid @ [z]) epsilon = Some (butlast r1 @ r2)"
  using assms by (subst rdp.simps) simp

lemma rdp_shape:
  assumes eps: "not_negative epsilon"
  shows "\<exists>out. rdp points epsilon = Some out \<and> rdp out epsilon = Some out \<and>
           (length points < 2 \<longrightarrow> out = points) \<and>
           (\<forall>a mid z. points = a # mid @ [z] \<longrightarrow>
              (\<exists>mid'. out = a # mid' @ [z] \<and> subseq mid' mid))"
proof (induction "length points" arbitrary: points rule: less_induct)
  case less
  show ?case
  proof (cases "length points < 3")
    case True
    then have "rdp points epsilon = Some points" by (rule rdp_short)
    then show ?thesis by (intro exI [of _ points]) auto
  next
    case False
    then obtain a mid z where pts: "points = a # mid @ [z]" and mid: "mid \<noteq> []"
      by (rule list_ends)
    let ?d = "\<lambda>p. pointLineDistance p a z"
    obtain D k where far: "farthest points = (D, k)" by force
    then have scan: "scan_max (map ?d mid) 1 (Num 0, 0) = (D, k)"
      by (simp add: pts farthest_scan)
    show ?thesis
    proof (cases "js_gt D epsilon")
      case False
      then have "rdp points epsilon = Some [a, z]"
        using far mid unfolding pts by (intro rdp_collapse) simp_all
      moreover have "rdp [a, z] epsilon = Some [a, z]" by (rule rdp_short) simp
      ultimately show ?thesis
        unfolding pts by (intro exI [of _ "[a, z]"]) (auto intro: exI [of _ "[]"])
    next
      case True
      from scan_max_inv [OF _ scan]
      have "k = 0 \<and> D = Num 0 \<or> 1 \<le> k \<and> k < 1 + length mid" by simp
      moreover have "\<not> js_gt (Num 0) epsilon"
        using eps by (simp add: not_negative_def js_gt_def)
      ultimately have k: "1 \<le> k" "k < 1 + length mid" using True by auto
      from scan_max_split [OF _ scan] k
      obtain pre post where sp: "map ?d mid = pre @ D # post" "length pre = k - 1"
        "js_lt (Num 0) D" "\<forall>x\<in>set pre. x = NaN \<or> js_lt x D" "\<forall>x\<in>set post. \<not> js_gt x D"
        by auto
      from sp(1) obtain m1 q m2 where m: "mid = m1 @ q # m2" "map ?d m1 = pre" "?d q = D"
        "map ?d m2 = post"
        by (auto simp: map_eq_append_conv map_eq_Cons_conv)
      have lm1: "length m1 = k - 1" using m(2) sp(2) by (metis length_map)
      have left: "take (k + 1) points = a # m1 @ [q]"
        using lm1 k by (simp add: pts m(1))
      have right: "drop k points = q # m2 @ [z]"
        using lm1 k by (cases k) (simp_all add: pts m(1))
      have "length (a # m1 @ [q]) < length points" by (simp add: pts m(1))
      from less [OF this]
      obtain r1m where r1: "rdp (a # m1 @ [q]) epsilon = Some (a # r1m @ [q])"
        "rdp (a # r1m @ [q]) epsilon = Some (a # r1m @ [q])" "subseq r1m m1"
        by (auto simp: ends_inject)
      have "length (q # m2 @ [z]) < length points" by (simp add: pts m(1))
      from less [OF this]
      obtain r2m where r2: "rdp (q # m2 @ [z]) epsilon = Some (q # r2m @ [z])"
        "rdp (q # r2m @ [z]) epsilon = Some (q # r2m @ [z])" "subseq r2m m2"
        by (auto simp: ends_inject)
      define mid' where "mid' = r1m @ q # r2m"
      have res: "rdp points epsilon = Some (a # mid' @ [z])"
        using rdp_split [OF mid far [unfolded pts] True, of "a # r1m @ [q]" "q # r2m @ [z]"]
          r1(1) r2(1) left right
        by (simp add: pts mid'_def butlast_append)
      have sub: "\<And>x. x \<in> set r1m \<Longrightarrow> x \<in> set m1" "\<And>x. x \<in> set r2m \<Longrightarrow> x \<in> set m2"
        using r1(3) r2(3) subseq_set_mono by blast+
      have "\<forall>x\<in>set (map ?d r1m). x = NaN \<or> js_lt x D"
        using sp(4) m(2) [symmetric] sub(1) by fastforce
      moreover have "\<forall>x\<in>set (map ?d r2m). \<not> js_gt x D"
        using sp(5) m(4) [symmetric] sub(2) by fastforce
      ultimately have "scan_max (map ?d r1m @ D # map ?d r2m) 1 (Num 0, 0) = (D, 1 + length (map ?d r1m))"
        using sp(3) by (intro scan_max_result) simp_all
      then have far': "farthest (a # mid' @ [z]) = (D, 1 + length r1m)"
        using farthest_scan [of a "r1m @ q # r2m" z] by (simp add: mid'_def m(3))
      have "rdp (a # mid' @ [z]) epsilon = Some (butlast (a # r1m @ [q]) @ (q # r2m @ [z]))"
        using r1(2) r2(2)
        by (intro rdp_split [OF _ far' True]) (simp_all add: mid'_def)
      then have idem: "rdp (a # mid' @ [z]) epsilon = Some (a # mid' @ [z])"
        by (simp add: mid'_def butlast_append)
      have "subseq mid' mid"
        unfolding mid'_def m(1) using r1(3) r2(3) by (intro list_emb_append_mono) auto
      with res idem show ?thesis
        unfolding pts by (intro exI [of _ "a # mid' @ [z]"]) (auto simp: pts)
    qed
  qed
qed

text \<open>
  Claim C7, amended.  For every list of points and every tolerance that is not negative, the
  simplification returns; its result is a subsequence of the input with the same first and
  last point, and simplifying the result again with the same tolerance returns it unchanged.
\<close>

theorem rdp_subsequence_idempotent:
  assumes "not_negative epsilon"
  shows "\<exists>out. rdp points epsilon = Some out \<and> subseq out points \<and>
           (points \<noteq> [] \<longrightarrow> out \<noteq> [] \<and> hd out = hd points \<and> last out = last points) \<and>
           rdp out epsilon = Some out"
proof -
  from rdp_shape [OF assms, of points]
  obtain out where out: "rdp points epsilon = Some out" "rdp out epsilon = Some out"
    "length points < 2 \<longrightarrow> out = points"
    "\<forall>a mid z. points = a # mid @ [z] \<longrightarrow> (\<exists>mid'. out = a # mid' @ [z] \<and> subseq mid' mid)"
    by blast
  have "subseq out points \<and>
        (points \<noteq> [] \<longrightarrow> out \<noteq> [] \<and> hd out = hd points \<and> last out = last points)"
  proof (cases "length points < 2")
    case True
    with out(3) show ?thesis by simp
  next
    case False
    then obtain a rest where p: "points = a # rest" and "rest \<noteq> []" by (cases points) auto
    then obtain mid z where "rest = mid @ [z]" by (cases rest rule: rev_cases) auto
    with p out(4) obtain mid' where "out = a # mid' @ [z]" "subseq mid' mid" "points = a # mid @ [z]"
      by blast
    then show ?thesis by (auto intro: list_emb_append_mono)
  qed
  with out(1,2) show ?thesis by blast
qed

lemma sqrt_16: "sqrt 16 = 4"
  using real_sqrt_abs [of 4] by simp

lemma sqrt_8_bounds: "2 < sqrt 8"
  using real_sqrt_less_mono [of 4 8] by simp

lemma upt_1_4: "[1 ..< 4] = [1, 2, 3]" "[1 ..< 2] = [1]"
  by (simp_all add: upt_rec)

lemma ex_far_outer:
  "farthest [Point 0 0, Point 1 0, Point 2 2, Point 3 0, Point 4 0] = (Num 2, 2)"
  by (simp add: farthest_def upt_1_4 pointLineDistance_def js_gt_def sqrt_16 Let_def del: One_nat_def)

lemma ex_far_left:
  "farthest [Point 0 0, Point 1 0, Point 2 2] = (Num (2 / sqrt 8), 1)"
  by (simp add: farthest_def upt_1_4 pointLineDistance_def js_gt_def Let_def del: One_nat_def)

lemma ex_far_right:
  "farthest [Point 2 2, Point 3 0, Point 4 0] = (Num (2 / sqrt 8), 1)"
  by (simp add: farthest_def upt_1_4 pointLineDistance_def js_gt_def Let_def del: One_nat_def)

lemma ex_small: "\<not> js_gt (Num (2 / sqrt 8)) (Num 1)"
  using sqrt_8_bounds by (simp add: js_gt_def)

lemma ex_rdp:
  "rdp [Point 0 0, Point 1 0, Point 2 2, Point 3 0, Point 4 0] (Num 1) =
   Some [Point 0 0, Point 2 2, Point 4 0]"
proof -
  have l: "rdp [Point 0 0, Point 1 0, Point 2 2] (Num 1) = Some [Point 0 0, Point 2 2]"
    using rdp_collapse [of "[Point 1 0]" "Point 0 0" "Point 2 2" "Num 1"] ex_small
    by (simp add: ex_far_left)
  have r: "rdp [Point 2 2, Point 3 0, Point 4 0] (Num 1) = Some [Point 2 2, Point 4 0]"
    using rdp_collapse [of "[Point 3 0]" "Point 2 2" "Point 4 0" "Num 1"] ex_small
    by (simp add: ex_far_right)
  show ?thesis
    using rdp_split [of "[Point 1 0, Point 2 2, Point 3 0]" "Point 0 0" "Point 4 0" "Num 2" 2
        "Num 1" "[Point 0 0, Point 2 2]" "[Point 2 2, Point 4 0]"] l r
    by (simp add: ex_far_outer js_gt_def)
qed

theorem rdp_subsequence_idempotent_witness:
  "not_negative (Num 1) \<and>
   rdp [Point 0 0, Point 1 0, Point 2 2, Point 3 0, Point 4 0] (Num 1) =
     Some [Point 0 0, Point 2 2, Point 4 0] \<and>
   subseq [Point 0 0, Point 2 2, Point 4 0 :: real Point]
          [Point 0 0, Point 1 0, Point 2 2, Point 3 0, Point 4 0] \<and>
   rdp [Point 0 0, Point 2 2, Point 4 0] (Num 1) = Some [Point 0 0, Point 2 2, Point 4 0]"
proof -
  have nn: "not_negative (Num 1)" by (simp add: not_negative_def)
  from rdp_subsequence_idempotent [OF nn, of "[Point 0 0, Point 1 0, Point 2 2, Point 3 0, Point 4 0]"]
  show ?thesis using nn by (simp add: ex_rdp)
qed

text \<open>
  Claim C7, as stated, covers every tolerance.  With a negative one the test
  \<open>dmax > epsilon\<close> succeeds although no point is off the line, the split index is 0, and
  the second recursive call is on the whole list again: the recursion never ends.
\<close>

lemma ex_far_line: "farthest [Point 0 0, Point 1 0, Point 2 0] = (Num 0, 0)"
  by (simp add: farthest_def upt_1_4 pointLineDistance_def js_gt_def Let_def del: One_nat_def)

lemma rdp_negative_never_returns:
  assumes "rdp points epsilon = Some out"
  shows "\<not> (points = [Point 0 0, Point 1 0, Point 2 0] \<and> epsilon = Num (- 1))"
proof (rule rdp.raw_induct
    [where P = "\<lambda>points epsilon out.
       \<not> (points = [Point 0 0, Point 1 0, Point 2 0] \<and> epsilon = Num (- 1))", OF _ assms])
  fix rec :: "real Point list \<Rightarrow> number \<Rightarrow> real Point list option" and points epsilon out
  assume IH: "\<And>points epsilon out. rec points epsilon = Some out \<Longrightarrow>
      \<not> (points = [Point 0 0, Point 1 0, Point 2 0] \<and> epsilon = Num (- 1))"
    and body: "(if length points < 3 then Some points
      else if js_gt (fst (farthest points)) epsilon
           then Option.bind (rec (take (snd (farthest points) + 1) points) epsilon)
                 (\<lambda>recResults1.
                     Option.bind (rec (drop (snd (farthest points)) points) epsilon)
                      (\<lambda>recResults2. Some (butlast recResults1 @ recResults2)))
           else Some [points ! 0, points ! (length points - 1)]) = Some out"
  show "\<not> (points = [Point 0 0, Point 1 0, Point 2 0] \<and> epsilon = Num (- 1))"
  proof
    assume "points = [Point 0 0, Point 1 0, Point 2 0] \<and> epsilon = Num (- 1)"
    with body obtain r2 where "rec [Point 0 0, Point 1 0, Point 2 0] (Num (- 1)) = Some r2"
      by (auto simp: ex_far_line js_gt_def bind_eq_Some_conv)
    from IH [OF this] show False by simp
  qed
qed

theorem rdp_negative_epsilon_counterexample:
  "rdp [Point 0 0, Point 1 0, Point 2 0] (Num (- 1)) = None"
  using rdp_negative_never_returns [of "[Point 0 0, Point 1 0, Point 2 0]" "Num (- 1)"]
  by (cases "rdp [Point 0 0, Point 1 0, Point 2 0] (Num (- 1))") auto

section \<open>Component extraction: regions, partition, order\<close>

subsection \<open>Grids\<close>

lemma dims_row: "dims grid width height \<Longrightarrow> y < height \<Longrightarrow> length (grid ! y) = width"
  by (simp add: dims_def)

text \<open>The mask that \<open>otsuBinarize\<close> builds has \<open>height\<close> rows of \<open>width\<close> cells.\<close>

lemma otsuBinarize_dims: "dims (otsuBinarize grayData width height) width height"
  by (auto simp: dims_def otsuBinarize_def binarize_def)

lemma dims_mark_visited:
  "dims visited width height \<Longrightarrow> dims (mark_visited visited cx cy) width height"
proof (cases "nat cy < length visited")
  case True
  assume d: "dims visited width height"
  then have "length (visited ! nat cy) = width" using True by (simp add: dims_def)
  with d show ?thesis
    unfolding dims_def mark_visited_def
    by (auto dest!: set_update_subset_insert [THEN subsetD])
next
  case False
  then show "dims visited width height \<Longrightarrow> ?thesis"
    by (simp add: mark_visited_def list_update_beyond)
qed

lemma cell_mark_visited:
  assumes "dims visited width height" and "in_bounds width height (Point cx cy)"
    and "in_bounds width height q"
  shows "cell (mark_visited visited cx cy) (px q) (py q) \<longleftrightarrow>
         cell visited (px q) (py q) \<or> q = Point cx cy"
proof -
  have len: "nat cy < length visited" "nat cx < length (visited ! nat cy)"
    using assms(1,2) by (auto simp: dims_def in_bounds_def)
  have eq: "q = Point cx cy \<longleftrightarrow> nat (px q) = nat cx \<and> nat (py q) = nat cy"
    using assms(2,3) by (cases q) (auto simp: in_bounds_def)
  show ?thesis
    using len unfolding cell_def mark_visited_def eq
    by (auto simp: nth_list_update)
qed

lemma marked_mark_visited:
  assumes "dims visited width height" and "in_bounds width height p"
  shows "marked (mark_visited visited (px p) (py p)) width height =
         insert p (marked visited width height)"
  using assms cell_mark_visited [OF assms(1), of "px p" "py p"]
  by (auto simp: marked_def)

subsection \<open>The eight neighbours\<close>

lemma flood_offsets_eq:
  "flood_offsets = [(-1, -1), (0, -1), (1, -1), (-1, 0), (1, 0), (-1, 1), (0, 1), (1, 1)]"
  by (simp add: flood_offsets_def)

lemma flood_offsets_distinct: "distinct flood_offsets"
  by (simp add: flood_offsets_eq)

lemma unit_step: "\<bar>a\<bar> \<le> 1 \<longleftrightarrow> a = -1 \<or> a = 0 \<or> a = (1::int)"
  by arith

lemma shift_flood_offsets: "shift p ` set flood_offsets = {n. adjacent p n}"
proof (intro set_eqI iffI)
  fix n assume "n \<in> shift p ` set flood_offsets"
  then show "n \<in> {n. adjacent p n}"
    by (cases p) (auto simp: flood_offsets_eq shift_def adjacent_def)
next
  fix n assume "n \<in> {n. adjacent p n}"
  then have a: "p \<noteq> n" "\<bar>px n - px p\<bar> \<le> 1" "\<bar>py n - py p\<bar> \<le> 1"
    by (auto simp: adjacent_def)
  define dx dy where "dx = px n - px p" and "dy = py n - py p"
  have n: "n = shift p (dx, dy)" by (cases n) (simp add: shift_def dx_def dy_def)
  have "(dx, dy) \<noteq> (0, 0)" using a(1) by (cases p; cases n) (auto simp: dx_def dy_def)
  moreover have "dx = -1 \<or> dx = 0 \<or> dx = 1" "dy = -1 \<or> dy = 0 \<or> dy = 1"
    using a(2,3) by (simp_all add: unit_step dx_def dy_def)
  ultimately have "(dx, dy) \<in> set flood_offsets" by (auto simp: flood_offsets_eq)
  then show "n \<in> shift p ` set flood_offsets" unfolding n by (rule imageI)
qed

lemma shift_inject: "shift p d = shift p e \<longleftrightarrow> d = e"
  by (cases d; cases e) (simp add: shift_def)

lemma visitNeighbour_eq:
  "visitNeighbour binaryData width height p d qv =
     (if shift p d \<in> foreground binaryData width height - marked (snd qv) width height
      then (fst qv @ [shift p d], mark_visited (snd qv) (px (shift p d)) (py (shift p d)))
      else qv)"
  by (auto simp: visitNeighbour_def Let_def shift_def foreground_def marked_def in_bounds_def)

lemma fold_visitNeighbour:
  assumes "dims visited width height" and "distinct ds"
  shows "\<exists>ns visited'.
           fold (visitNeighbour binaryData width height p) ds (queue, visited) =
             (queue @ ns, visited') \<and>
           dims visited' width height \<and>
           marked visited' width height = marked visited width height \<union> set ns \<and>
           distinct ns \<and>
           set ns = shift p ` set ds \<inter> foreground binaryData width height
                    - marked visited width height"
  using assms
proof (induction ds arbitrary: queue visited)
  case Nil
  then show ?case by simp
next
  case (Cons d ds)
  let ?F = "foreground binaryData width height"
  let ?n = "shift p d"
  show ?case
  proof (cases "?n \<in> ?F - marked visited width height")
    case True
    define v1 where "v1 = mark_visited visited (px ?n) (py ?n)"
    have inb: "in_bounds width height ?n" using True by (simp add: foreground_def)
    have d1: "dims v1 width height" unfolding v1_def using Cons.prems(1) by (rule dims_mark_visited)
    have m1: "marked v1 width height = insert ?n (marked visited width height)"
      unfolding v1_def using Cons.prems(1) inb by (rule marked_mark_visited)
    from Cons.IH [OF d1, of "queue @ [?n]"] Cons.prems(2)
    obtain ns v' where *:
      "fold (visitNeighbour binaryData width height p) ds (queue @ [?n], v1) = ((queue @ [?n]) @ ns, v')"
      "dims v' width height" "marked v' width height = marked v1 width height \<union> set ns"
      "distinct ns" "set ns = shift p ` set ds \<inter> ?F - marked v1 width height"
      by auto
    have "visitNeighbour binaryData width height p d (queue, visited) = (queue @ [?n], v1)"
      using True by (auto simp: visitNeighbour_eq v1_def)
    then have "fold (visitNeighbour binaryData width height p) (d # ds) (queue, visited) =
          (queue @ ?n # ns, v')"
      using *(1) by simp
    moreover have "distinct (?n # ns)" using *(4,5) m1 by auto
    moreover have "marked v' width height = marked visited width height \<union> set (?n # ns)"
      using *(3) m1 by auto
    moreover have "set (?n # ns) = shift p ` set (d # ds) \<inter> ?F - marked visited width height"
      using *(5) m1 True by auto
    ultimately show ?thesis using *(2) by blast
  next
    case False
    from Cons.IH [OF Cons.prems(1), of queue] Cons.prems(2)
    obtain ns v' where *:
      "fold (visitNeighbour binaryData width height p) ds (queue, visited) = (queue @ ns, v')"
      "dims v' width height" "marked v' width height = marked visited width height \<union> set ns"
      "distinct ns" "set ns = shift p ` set ds \<inter> ?F - marked visited width height"
      by auto
    have "visitNeighbour binaryData width height p d (queue, visited) = (queue, visited)"
      using False by (auto simp: visitNeighbour_eq)
    then have "fold (visitNeighbour binaryData width height p) (d # ds) (queue, visited) =
          (queue @ ns, v')"
      using *(1) by simp
    moreover have "set ns = shift p ` set (d # ds) \<inter> ?F - marked visited width height"
      using *(5) False by auto
    ultimately show ?thesis using * by blast
  qed
qed

lemma visit_all_neighbours:
  assumes "dims visited width height"
  shows "\<exists>ns visited'.
           fold (visitNeighbour binaryData width height p) flood_offsets (queue, visited) =
             (queue @ ns, visited') \<and>
           dims visited' width height \<and>
           marked visited' width height = marked visited width height \<union> set ns \<and>
           distinct ns \<and>
           set ns = {n \<in> foreground binaryData width height. adjacent p n}
                    - marked visited width height"
proof -
  have "shift p ` set flood_offsets \<inter> foreground binaryData width height =
        {n \<in> foreground binaryData width height. adjacent p n}"
    by (auto simp: shift_flood_offsets)
  with fold_visitNeighbour [OF assms flood_offsets_distinct, of binaryData p queue]
  show ?thesis by simp
qed

subsection \<open>Regions\<close>

lemma adjacent_sym: "adjacent p q \<Longrightarrow> adjacent q p"
  by (auto simp: adjacent_def abs_minus_commute)

lemma region_refl: "p \<in> region F p"
  by (simp add: region_def)

lemma region_step:
  "a \<in> region F p \<Longrightarrow> a \<in> F \<Longrightarrow> b \<in> F \<Longrightarrow> adjacent a b \<Longrightarrow> b \<in> region F p"
  unfolding region_def by (auto intro: rtrancl_into_rtrancl)

lemma region_least:
  assumes "p \<in> S" and "\<And>a b. a \<in> S \<Longrightarrow> a \<in> F \<Longrightarrow> b \<in> F \<Longrightarrow> adjacent a b \<Longrightarrow> b \<in> S"
  shows "region F p \<subseteq> S"
proof
  fix q assume "q \<in> region F p"
  then have "(p, q) \<in> {(a, b). a \<in> F \<and> b \<in> F \<and> adjacent a b}\<^sup>*" by (simp add: region_def)
  then show "q \<in> S"
    by (induction rule: rtrancl_induct) (use assms in auto)
qed

lemma region_subset: "p \<in> F \<Longrightarrow> region F p \<subseteq> F"
  by (rule region_least) auto

lemma region_sym: "q \<in> region F p \<Longrightarrow> p \<in> region F q"
proof -
  have "sym {(a, b). a \<in> F \<and> b \<in> F \<and> adjacent a b}"
    by (auto simp: sym_def adjacent_sym)
  then have "sym ({(a, b). a \<in> F \<and> b \<in> F \<and> adjacent a b}\<^sup>*)" by (rule sym_rtrancl)
  then show "q \<in> region F p \<Longrightarrow> p \<in> region F q"
    by (auto simp: region_def sym_def)
qed

lemma region_trans: "q \<in> region F p \<Longrightarrow> r \<in> region F q \<Longrightarrow> r \<in> region F p"
  unfolding region_def by auto

lemma region_eq: "q \<in> region F p \<Longrightarrow> region F q = region F p"
  using region_sym region_trans by blast

lemma closed_region_subset: "closed_in F V \<Longrightarrow> q \<in> V \<Longrightarrow> region F q \<subseteq> V"
  by (rule region_least) (auto simp: closed_in_def)

lemma closed_region_disjoint:
  assumes "closed_in F V" and "p \<notin> V"
  shows "region F p \<inter> V = {}"
proof (rule ccontr)
  assume "region F p \<inter> V \<noteq> {}"
  then obtain q where q: "q \<in> region F p" "q \<in> V" by auto
  from closed_region_subset [OF assms(1) q(2)] region_sym [OF q(1)] have "p \<in> V" by auto
  with assms(2) show False by simp
qed

lemma closed_in_region: "p \<in> F \<Longrightarrow> closed_in F (region F p)"
  unfolding closed_in_def using region_subset [of p F] region_step [of _ F p] by blast

lemma closed_in_Un: "closed_in F V \<Longrightarrow> closed_in F W \<Longrightarrow> closed_in F (V \<union> W)"
  unfolding closed_in_def by blast

lemma finite_in_bounds: "finite {p. in_bounds width height p}"
proof -
  have "{p. in_bounds width height p} \<subseteq>
        (\<lambda>(cx, cy). Point cx cy) ` ({0 ..< int width} \<times> {0 ..< int height})"
  proof
    fix p assume "p \<in> {p. in_bounds width height p}"
    then have "(px p, py p) \<in> {0 ..< int width} \<times> {0 ..< int height}"
      by (simp add: in_bounds_def)
    then have "(\<lambda>(cx, cy). Point cx cy) (px p, py p) \<in>
               (\<lambda>(cx, cy). Point cx cy) ` ({0 ..< int width} \<times> {0 ..< int height})"
      by (rule imageI)
    then show "p \<in> (\<lambda>(cx, cy). Point cx cy) ` ({0 ..< int width} \<times> {0 ..< int height})"
      by simp
  qed
  then show ?thesis by (rule finite_subset) simp
qed

lemma finite_foreground: "finite (foreground binaryData width height)"
  by (rule finite_subset [OF _ finite_in_bounds [of width height]]) (auto simp: foreground_def)

subsection \<open>The flood fill\<close>

lemma floodLoop_region:
  fixes binaryData :: "nat list list" and width height :: nat and F V0 :: "int Point set"
  defines "F \<equiv> foreground binaryData width height"
  assumes "closed_in F V0" and "s \<in> F"
    and "dims visited width height"
    and "marked visited width height = V0 \<union> set blob \<union> set queue"
    and "distinct (blob @ queue)"
    and "set (blob @ queue) \<inter> V0 = {}"
    and "set (blob @ queue) \<subseteq> region F s"
    and "\<forall>b\<in>set blob. \<forall>n\<in>F. adjacent b n \<longrightarrow> n \<in> marked visited width height"
    and "blob @ queue \<noteq> []" and "hd (blob @ queue) = s"
  shows "\<exists>blob' visited'.
           floodLoop binaryData width height queue visited blob = Some (blob', visited') \<and>
           dims visited' width height \<and>
           marked visited' width height = V0 \<union> region F s \<and>
           set blob' = region F s \<and> distinct blob' \<and> blob' \<noteq> [] \<and> hd blob' = s"
  using assms(4-)
proof (induction "card (F - marked visited width height) + length queue"
    arbitrary: queue visited blob rule: less_induct)
  case less
  note closed = assms(2) and sF = assms(3)
  show ?case
  proof (cases queue)
    case Nil
    have "region F s \<subseteq> set blob"
    proof (rule region_least)
      show "s \<in> set blob" using less.prems(7,8) Nil by (cases blob) auto
    next
      fix a b assume ab: "a \<in> set blob" "a \<in> F" "b \<in> F" "adjacent a b"
      with less.prems(6) have "b \<in> marked visited width height" by blast
      moreover have "b \<notin> V0"
      proof
        assume "b \<in> V0"
        with closed ab have "a \<in> V0" by (auto simp: closed_in_def dest: adjacent_sym)
        with ab(1) less.prems(4) show False by auto
      qed
      ultimately show "b \<in> set blob" using less.prems(2) Nil by auto
    qed
    with less.prems Nil have "set blob = region F s" by auto
    moreover have "floodLoop binaryData width height queue visited blob = Some (blob, visited)"
      using Nil by (subst floodLoop.simps) simp
    ultimately show ?thesis using less.prems Nil by auto
  next
    case (Cons p rest)
    from visit_all_neighbours [OF less.prems(1), of binaryData p rest]
    obtain ns v' where step:
      "fold (visitNeighbour binaryData width height p) flood_offsets (rest, visited) = (rest @ ns, v')"
      "dims v' width height" "marked v' width height = marked visited width height \<union> set ns"
      "distinct ns" "set ns = {n \<in> F. adjacent p n} - marked visited width height"
      unfolding F_def by blast
    have unfold: "floodLoop binaryData width height queue visited blob =
                  floodLoop binaryData width height (rest @ ns) v' (blob @ [p])"
      using Cons step(1) by (subst floodLoop.simps) simp
    have pr: "p \<in> region F s" using less.prems(5) Cons by auto
    then have pF: "p \<in> F" using region_subset [OF sF] by auto
    have ns_new: "set ns \<inter> marked visited width height = {}" using step(5) by auto
    have i2: "marked v' width height = V0 \<union> set (blob @ [p]) \<union> set (rest @ ns)"
      using step(3) less.prems(2) Cons by auto
    have i3: "distinct ((blob @ [p]) @ rest @ ns)"
      using less.prems(3) Cons step(4) ns_new less.prems(2) by auto
    have i4: "set ((blob @ [p]) @ rest @ ns) \<inter> V0 = {}"
      using less.prems(4) Cons ns_new less.prems(2) by auto
    have "set ns \<subseteq> region F s"
      using step(5) region_step [OF pr pF] by auto
    then have i5: "set ((blob @ [p]) @ rest @ ns) \<subseteq> region F s"
      using less.prems(5) Cons by auto
    have i6: "\<forall>b\<in>set (blob @ [p]). \<forall>n\<in>F. adjacent b n \<longrightarrow> n \<in> marked v' width height"
      using less.prems(6) step(3,5) by auto
    have i7: "(blob @ [p]) @ rest @ ns \<noteq> []" by simp
    have i8: "hd ((blob @ [p]) @ rest @ ns) = s"
      using less.prems(8) Cons by (cases blob) auto
    have fin: "finite (F - marked visited width height)"
      unfolding F_def by (intro finite_Diff finite_foreground)
    have "F - marked v' width height = (F - marked visited width height) - set ns"
      using step(3) by auto
    moreover have "set ns \<subseteq> F - marked visited width height" using step(5) by auto
    ultimately have "card (F - marked v' width height) =
                     card (F - marked visited width height) - card (set ns)"
      using fin by (simp add: card_Diff_subset)
    moreover have "card (set ns) \<le> card (F - marked visited width height)"
      using fin \<open>set ns \<subseteq> F - marked visited width height\<close> by (rule card_mono)
    ultimately have "card (F - marked v' width height) + length (rest @ ns) <
                     card (F - marked visited width height) + length queue"
      using Cons distinct_card [OF step(4)] by simp
    from less.hyps [OF this step(2) i2 i3 i4 i5 i6 i7 i8] show ?thesis
      unfolding unfold .
  qed
qed

lemma floodFill_region:
  fixes binaryData :: "nat list list" and width height :: nat and F :: "int Point set"
  defines "F \<equiv> foreground binaryData width height"
  assumes "dims visited width height" and "closed_in F (marked visited width height)"
    and "s \<in> F" and "s \<notin> marked visited width height"
  shows "\<exists>blob visited'.
           floodFill binaryData (px s) (py s) width height visited = Some (blob, visited') \<and>
           dims visited' width height \<and>
           marked visited' width height = marked visited width height \<union> region F s \<and>
           set blob = region F s \<and> distinct blob \<and> blob \<noteq> [] \<and> hd blob = s"
proof -
  have inb: "in_bounds width height s" using assms(4) by (simp add: F_def foreground_def)
  have s: "Point (px s) (py s) = s" by simp
  have "\<exists>blob' visited'.
          floodLoop binaryData width height [s] (mark_visited visited (px s) (py s)) [] =
            Some (blob', visited') \<and>
          dims visited' width height \<and>
          marked visited' width height = marked visited width height \<union> region (foreground binaryData width height) s \<and>
          set blob' = region (foreground binaryData width height) s \<and> distinct blob' \<and>
          blob' \<noteq> [] \<and> hd blob' = s"
    using assms(2-) inb
    by (intro floodLoop_region)
       (auto simp: F_def dims_mark_visited marked_mark_visited region_refl)
  then show ?thesis by (simp add: floodFill_def s F_def)
qed

subsection \<open>The scan\<close>

lemma scan_order_set: "set (scan_order width height) = {c. fst c < width \<and> snd c < height}"
  by (auto simp: scan_order_def)

lemma pixel_scan_order: "pixel ` set (scan_order width height) = {p. in_bounds width height p}"
proof (intro set_eqI iffI)
  fix p assume "p \<in> pixel ` set (scan_order width height)"
  then show "p \<in> {p. in_bounds width height p}"
    by (auto simp: scan_order_set pixel_def in_bounds_def)
next
  fix p assume "p \<in> {p. in_bounds width height p}"
  then have "(nat (px p), nat (py p)) \<in> set (scan_order width height)"
    and "pixel (nat (px p), nat (py p)) = p"
    by (auto simp: scan_order_set pixel_def in_bounds_def)
  then show "p \<in> pixel ` set (scan_order width height)" by (metis imageI)
qed

lemma pixel_inject: "pixel c = pixel c' \<longleftrightarrow> c = c'"
  by (cases c; cases c') (simp add: pixel_def)

lemma scan_order_Suc:
  "scan_order width (Suc height) = scan_order width height @ map (\<lambda>x. (x, height)) [0 ..< width]"
  by (simp add: scan_order_def)

lemma scan_order_sorted:
  "sorted_wrt (\<lambda>c c'. row_major (pixel c) (pixel c')) (scan_order width height)"
proof (induction height)
  case 0
  show ?case by (simp add: scan_order_def)
next
  case (Suc height)
  have "sorted_wrt (\<lambda>a b. row_major (pixel (a, height)) (pixel (b, height))) [0 ..< width]"
    by (rule sorted_wrt_mono_rel [OF _ sorted_wrt_upt]) (simp add: row_major_def pixel_def)
  then have "sorted_wrt (\<lambda>c c'. row_major (pixel c) (pixel c')) (map (\<lambda>x. (x, height)) [0 ..< width])"
    by (simp add: sorted_wrt_map)
  moreover have "\<forall>c\<in>set (scan_order width height). \<forall>c'\<in>set (map (\<lambda>x. (x, height)) [0 ..< width]).
                   row_major (pixel c) (pixel c')"
    by (auto simp: scan_order_set row_major_def pixel_def)
  ultimately show ?case using Suc by (simp add: scan_order_Suc sorted_wrt_append)
qed

lemma findLoop_regions:
  fixes binaryData :: "nat list list" and width height :: nat and F :: "int Point set"
  defines "F \<equiv> foreground binaryData width height"
  assumes "dims visited width height"
    and "scanned @ cells = scan_order width height"
    and "marked visited width height = set (concat contours)"
    and "closed_in F (marked visited width height)"
    and "distinct (concat contours)"
    and "\<forall>b\<in>set contours. b \<noteq> [] \<and> set b = region F (hd b) \<and> hd b \<in> pixel ` set scanned \<and>
                          (\<forall>q\<in>set b. q = hd b \<or> row_major (hd b) q)"
    and "sorted_wrt row_major (map hd contours)"
    and "F \<inter> pixel ` set scanned \<subseteq> marked visited width height"
  shows "\<exists>blobs. findLoop binaryData width height cells visited contours = Some blobs \<and>
           set (concat blobs) = F \<and> distinct (concat blobs) \<and>
           (\<forall>b\<in>set blobs. b \<noteq> [] \<and> set b = region F (hd b) \<and>
                            (\<forall>q\<in>set b. q = hd b \<or> row_major (hd b) q)) \<and>
           sorted_wrt row_major (map hd blobs)"
  using assms(2-)
proof (induction cells arbitrary: scanned visited contours)
  case Nil
  then have "pixel ` set scanned = {p. in_bounds width height p}"
    by (simp add: pixel_scan_order)
  then have "F \<subseteq> marked visited width height"
    using Nil.prems(8) by (auto simp: F_def foreground_def)
  moreover have "marked visited width height \<subseteq> F" using Nil.prems(4) by (simp add: closed_in_def)
  ultimately have "set (concat contours) = F" using Nil.prems(3) by auto
  with Nil.prems show ?case by auto
next
  case (Cons c cells)
  let ?p = "pixel c"
  have order: "sorted_wrt (\<lambda>c c'. row_major (pixel c) (pixel c')) (scanned @ c # cells)"
    using scan_order_sorted [of width height] Cons.prems(2) by simp
  have c: "c \<in> set (scan_order width height)" using Cons.prems(2) [symmetric] by simp
  then have inb: "in_bounds width height ?p" using pixel_scan_order by blast
  have next_scan: "(scanned @ [c]) @ cells = scan_order width height" using Cons.prems(2) by simp
  have test: "cell binaryData (int (fst c)) (int (snd c)) = 1 \<and>
              \<not> cell visited (int (fst c)) (int (snd c)) \<longleftrightarrow>
              ?p \<in> F \<and> ?p \<notin> marked visited width height"
    using inb by (simp add: F_def foreground_def marked_def pixel_def)
  show ?case
  proof (cases "?p \<in> F \<and> ?p \<notin> marked visited width height")
    case True
    from floodFill_region [OF Cons.prems(1) Cons.prems(4) [unfolded F_def]] True
    obtain blob v' where ff:
      "floodFill binaryData (px ?p) (py ?p) width height visited = Some (blob, v')"
      "dims v' width height" "marked v' width height = marked visited width height \<union> region F ?p"
      "set blob = region F ?p" "distinct blob" "blob \<noteq> []" "hd blob = ?p"
      unfolding F_def by blast
    from True test
    have "cell binaryData (int (fst c)) (int (snd c)) = 1 \<and>
          \<not> cell visited (int (fst c)) (int (snd c))" by blast
    then have unfold: "findLoop binaryData width height (c # cells) visited contours =
                  findLoop binaryData width height cells v' (contours @ [blob])"
      using ff(1) by (simp only: findLoop.simps if_True) (simp add: pixel_def)
    have disj: "region F ?p \<inter> marked visited width height = {}"
      using Cons.prems(4) True by (intro closed_region_disjoint) auto
    have i3: "marked v' width height = set (concat (contours @ [blob]))"
      using ff(3,4) Cons.prems(3) by auto
    have i4: "closed_in F (marked v' width height)"
      unfolding ff(3) using Cons.prems(4) True by (intro closed_in_Un closed_in_region) auto
    have i5: "distinct (concat (contours @ [blob]))"
      using Cons.prems(5) ff(4,5) disj Cons.prems(3) by auto
    have least: "q = ?p \<or> row_major ?p q" if "q \<in> set blob" for q
    proof -
      from that have q: "q \<in> F" "q \<notin> marked visited width height"
        using ff(4) disj region_subset [of ?p F] True by auto
      then have "in_bounds width height q" by (simp add: F_def foreground_def)
      then obtain c' where c': "c' \<in> set (scan_order width height)" "q = pixel c'"
        using pixel_scan_order by blast
      have "c' \<notin> set scanned" using q c'(2) Cons.prems(8) by auto
      with c'(1) Cons.prems(2) [symmetric] have "c' = c \<or> c' \<in> set cells" by auto
      then show ?thesis using order c'(2) by (auto simp: sorted_wrt_append)
    qed
    have i6: "\<forall>b\<in>set (contours @ [blob]). b \<noteq> [] \<and> set b = region F (hd b) \<and>
                hd b \<in> pixel ` set (scanned @ [c]) \<and> (\<forall>q\<in>set b. q = hd b \<or> row_major (hd b) q)"
      using Cons.prems(6) ff(4,6,7) least by auto
    have "\<forall>b\<in>set contours. row_major (hd b) ?p"
    proof
      fix b assume "b \<in> set contours"
      with Cons.prems(6) obtain c' where "c' \<in> set scanned" "hd b = pixel c'" by blast
      then show "row_major (hd b) ?p" using order by (auto simp: sorted_wrt_append)
    qed
    then have i7: "sorted_wrt row_major (map hd (contours @ [blob]))"
      using Cons.prems(7) ff(7) by (simp add: sorted_wrt_append)
    have i8: "F \<inter> pixel ` set (scanned @ [c]) \<subseteq> marked v' width height"
      using Cons.prems(8) ff(3) region_refl [of ?p F] by auto
    from Cons.IH [OF ff(2) next_scan i3 i4 i5 i6 i7 i8] show ?thesis
      unfolding unfold .
  next
    case False
    from False test
    have "\<not> (cell binaryData (int (fst c)) (int (snd c)) = 1 \<and>
             \<not> cell visited (int (fst c)) (int (snd c)))" by blast
    then have unfold: "findLoop binaryData width height (c # cells) visited contours =
                  findLoop binaryData width height cells visited contours"
      by (simp only: findLoop.simps if_False)
    have i6: "\<forall>b\<in>set contours. b \<noteq> [] \<and> set b = region F (hd b) \<and>
                hd b \<in> pixel ` set (scanned @ [c]) \<and> (\<forall>q\<in>set b. q = hd b \<or> row_major (hd b) q)"
      using Cons.prems(6) by auto
    have i8: "F \<inter> pixel ` set (scanned @ [c]) \<subseteq> marked visited width height"
      using Cons.prems(8) False by auto
    from Cons.IH [OF Cons.prems(1) next_scan Cons.prems(3,4,5) i6 Cons.prems(7) i8] show ?thesis
      unfolding unfold .
  qed
qed

lemma distinct_map_set:
  assumes "distinct (concat xs)" and "\<forall>x\<in>set xs. x \<noteq> []"
  shows "distinct (map set xs)"
  using assms
proof (induction xs)
  case Nil
  show ?case by simp
next
  case (Cons x xs)
  have "set x \<notin> set ` set xs"
  proof
    assume "set x \<in> set ` set xs"
    then obtain y where y: "y \<in> set xs" "set x = set y" by auto
    from Cons.prems(2) obtain a where "a \<in> set x" by (cases x) auto
    with y Cons.prems(1) show False by auto
  qed
  with Cons show ?case by simp
qed

lemma findContours_regions:
  fixes binaryData :: "nat list list" and width height :: nat and F :: "int Point set"
  defines "F \<equiv> foreground binaryData width height"
  shows "\<exists>blobs. findContours binaryData width height = Some blobs \<and>
           set (concat blobs) = F \<and> distinct (concat blobs) \<and>
           (\<forall>b\<in>set blobs. b \<noteq> [] \<and> set b = region F (hd b) \<and>
                            (\<forall>q\<in>set b. q = hd b \<or> row_major (hd b) q)) \<and>
           sorted_wrt row_major (map hd blobs)"
  unfolding findContours_def F_def
  by (rule findLoop_regions [where scanned = "[]"])
     (auto simp: dims_def marked_def cell_def in_bounds_def closed_in_def)

text \<open>
  Claim C6.  For every mask of \<open>width \<times> height\<close> cells, \<open>findContours\<close> returns; every
  foreground pixel occurs exactly once in the concatenation of the blobs, so the blobs
  partition the foreground; the blobs, as sets, are exactly the maximal 8-connected regions of
  the foreground, each region once; and the blobs are listed in the row-major order of their
  first pixels, the first pixel of a blob being the topmost, then leftmost, pixel of its
  region.
\<close>

theorem findContours_components:
  fixes binaryData :: "nat list list" and width height :: nat and F :: "int Point set"
  defines "F \<equiv> foreground binaryData width height"
  assumes "dims binaryData width height"
  shows "\<exists>blobs. findContours binaryData width height = Some blobs \<and>
           distinct (concat blobs) \<and> set (concat blobs) = F \<and>
           set ` set blobs = {region F p | p. p \<in> F} \<and> distinct (map set blobs) \<and>
           (\<forall>b\<in>set blobs. b \<noteq> [] \<and> set b = region F (hd b) \<and>
                            (\<forall>q\<in>set b. q = hd b \<or> row_major (hd b) q)) \<and>
           sorted_wrt row_major (map hd blobs)"
proof -
  from findContours_regions [of binaryData width height]
  obtain blobs where b: "findContours binaryData width height = Some blobs"
    "set (concat blobs) = F" "distinct (concat blobs)"
    "\<forall>b\<in>set blobs. b \<noteq> [] \<and> set b = region F (hd b) \<and>
                     (\<forall>q\<in>set b. q = hd b \<or> row_major (hd b) q)"
    "sorted_wrt row_major (map hd blobs)"
    unfolding F_def by blast
  have "set ` set blobs = {region F p | p. p \<in> F}"
  proof (intro set_eqI iffI)
    fix R assume "R \<in> set ` set blobs"
    then obtain c where c: "c \<in> set blobs" "R = set c" by auto
    with b(4) have "c \<noteq> []" "set c = region F (hd c)" by auto
    moreover from this c(1) b(2) have "hd c \<in> F" by (metis UN_I hd_in_set set_concat)
    ultimately show "R \<in> {region F p | p. p \<in> F}" using c(2) by auto
  next
    fix R assume "R \<in> {region F p | p. p \<in> F}"
    then obtain p where p: "p \<in> F" "R = region F p" by auto
    with b(2) obtain c where c: "c \<in> set blobs" "p \<in> set c" by auto
    with b(4) have "p \<in> region F (hd c)" "set c = region F (hd c)" by auto
    then have "R = set c" using p(2) region_eq by metis
    with c(1) show "R \<in> set ` set blobs" by auto
  qed
  moreover have "distinct (map set blobs)"
    using b(3,4) by (intro distinct_map_set) auto
  ultimately show ?thesis using b by blast
qed

lemma findContours_example:
  "findContours [[1, 0, 1], [0, 0, 1]] 3 2 = Some [[Point 0 0], [Point 2 0, Point 2 1]]"
  by (simp add: findContours_def scan_order_def floodFill_def floodLoop.simps visitNeighbour_def
      flood_offsets_eq cell_def mark_visited_def upt_rec eval_nat_numeral Let_def)

theorem findContours_components_witness:
  "dims [[1, 0, 1], [0, 0, 1 :: nat]] 3 2 \<and>
   findContours [[1, 0, 1], [0, 0, 1]] 3 2 = Some [[Point 0 0], [Point 2 0, Point 2 1]] \<and>
   set (concat [[Point 0 0], [Point 2 0, Point 2 1]]) = foreground [[1, 0, 1], [0, 0, 1]] 3 2 \<and>
   set ` set [[Point 0 0], [Point 2 0, Point 2 1]] =
     {region (foreground [[1, 0, 1], [0, 0, 1]] 3 2) p | p.
        p \<in> foreground [[1, 0, 1], [0, 0, 1]] 3 2} \<and>
   set [Point 2 0, Point 2 1] = region (foreground [[1, 0, 1], [0, 0, 1]] 3 2) (Point 2 0) \<and>
   row_major (Point 0 0) (Point 2 0)"
proof -
  let ?F = "foreground [[1, 0, 1], [0, 0, 1]] 3 2"
  let ?blobs = "[[Point 0 0], [Point 2 0, Point 2 1 :: int Point]]"
  have d: "dims [[1, 0, 1], [0, 0, 1 :: nat]] 3 2" by (simp add: dims_def)
  from findContours_components [OF d]
  obtain blobs where b: "findContours [[1, 0, 1], [0, 0, 1]] 3 2 = Some blobs"
    and "distinct (concat blobs)"
    and b2: "set (concat blobs) = ?F"
    and b3: "set ` set blobs = {region ?F p | p. p \<in> ?F}"
    and "distinct (map set blobs)"
    and b4: "\<forall>b\<in>set blobs. b \<noteq> [] \<and> set b = region ?F (hd b) \<and>
                            (\<forall>q\<in>set b. q = hd b \<or> row_major (hd b) q)"
    and "sorted_wrt row_major (map hd blobs)"
    by (elim exE conjE)
  have blobs: "blobs = ?blobs"
    using b unfolding findContours_example by (simp only: option.inject)
  let ?b = "[Point 2 0, Point 2 1 :: int Point]"
  have "?b \<in> set ?blobs" by simp
  with b4 [unfolded blobs]
  have "?b \<noteq> [] \<and> set ?b = region ?F (hd ?b) \<and>
        (\<forall>q\<in>set ?b. q = hd ?b \<or> row_major (hd ?b) q)"
    by (rule bspec)
  then have b5: "set [Point 2 0, Point 2 1] = region ?F (hd [Point 2 0, Point 2 1])"
    by (elim conjE)
  have rm: "row_major (Point 0 0) (Point 2 0 :: int Point)" by (simp add: row_major_def)
  from d findContours_example b2 [unfolded blobs] b3 [unfolded blobs] b5 [unfolded list.sel] rm
  show ?thesis by (intro conjI)
qed

section \<open>No validation, no exception\<close>

subsection \<open>No exception\<close>





subsection \<open>Small blobs only\<close>








text \<open>
  Claim C1, as stated, has the operation fail on a buffer that does not match the dimensions,
  before any stage runs.  It does not fail: on the empty buffer with dimensions 2 by 2 every
  stage runs, on an intensity buffer of zeros, and a result is returned.
\<close>

lemma toGrayscale_no_data:
  "toGrayscale \<lparr>img_data = [], img_width = 2, img_height = 2\<rparr> = [0, 0, 0, 0]"
  by code_simp



section \<open>Gray images\<close>

lemma fold_update_prefix:
  "k \<le> length xs \<Longrightarrow>
   fold (\<lambda>j ys. ys[j := f j]) [0 ..< k] xs = map f [0 ..< k] @ drop k xs"
proof (induction k)
  case 0
  show ?case by simp
next
  case (Suc k)
  then have k: "k < length xs" by simp
  have "(map f [0 ..< k] @ drop k xs)[k := f k] = map f [0 ..< k] @ f k # drop (Suc k) xs"
    using k by (simp add: list_update_append Cons_nth_drop_Suc [symmetric])
  with Suc show ?case by simp
qed

lemma gray_data_length: "length (concat (map (\<lambda>g. [g, g, g, 255 :: 8 word]) levels)) = 4 * length levels"
  by (induction levels) simp_all

lemma gray_data_nth:
  "j < length levels \<Longrightarrow> i < 3 \<Longrightarrow>
   concat (map (\<lambda>g. [g, g, g, 255 :: 8 word]) levels) ! (4 * j + i) = levels ! j"
proof (induction levels arbitrary: j)
  case Nil
  then show ?case by simp
next
  case (Cons g levels)
  show ?case
  proof (cases j)
    case 0
    with Cons.prems(2) have "i = 0 \<or> i = 1 \<or> i = 2" by arith
    with 0 show ?thesis by auto
  next
    case (Suc j')
    have "4 * Suc j' + i = Suc (Suc (Suc (Suc (4 * j' + i))))" by simp
    with Suc Cons show ?thesis by simp
  qed
qed

lemma ToUint8Clamp_nat:
  assumes "k < 256"
  shows "ToUint8Clamp (Num (real k)) = (word_of_nat k :: 8 word)"
proof -
  consider "k = 0" | "k = 255" | "0 < k" "k < 255" using assms by arith
  then show ?thesis
  proof cases
    case 1
    then show ?thesis by (simp add: ToUint8Clamp_def)
  next
    case 2
    then show ?thesis by (simp add: ToUint8Clamp_def)
  next
    case 3
    then have "\<not> real k \<le> 0" "\<not> 255 \<le> real k" by simp_all
    moreover have "\<lfloor>real k\<rfloor> = int k" by simp
    moreover have "real k < real_of_int (int k) + 1 / 2" by simp
    ultimately show ?thesis by (simp add: ToUint8Clamp_def Let_def)
  qed
qed

lemma ToUint8Clamp_unsigned: "ToUint8Clamp (Num (unsigned g)) = g"
proof -
  have "ToUint8Clamp (Num (real (unat g))) = word_of_nat (unat g)"
    by (rule ToUint8Clamp_nat [OF unat_byte_less])
  then show ?thesis by simp
qed

lemma gray_of_gray:
  assumes "j < length levels"
  shows "gray_of (concat (map (\<lambda>g. [g, g, g, 255]) levels)) (4 * j) = Num (real (unat (levels ! j)))"
proof -
  have "4 * j + 2 < 4 * length levels" using assms by simp
  then show ?thesis
    using gray_data_nth [OF assms, of 0] gray_data_nth [OF assms, of 1]
      gray_data_nth [OF assms, of 2]
    by (simp add: gray_of_def sample_def gray_data_length algebra_simps)
qed

lemma toGrayscale_gray_image:
  assumes "length levels = width * height"
  shows "toGrayscale (gray_image levels width height) = levels"
proof -
  let ?data = "concat (map (\<lambda>g. [g, g, g, 255]) levels)"
  have "toGrayscale (gray_image levels width height) =
        fold (\<lambda>j ys. ys[j := ToUint8Clamp (gray_of ?data (4 * j))]) [0 ..< length levels]
          (replicate (length levels) 0)"
    using assms by (simp add: toGrayscale_def gray_image_def gray_data_length)
  also have "\<dots> = map (\<lambda>j. ToUint8Clamp (gray_of ?data (4 * j))) [0 ..< length levels]"
    by (subst fold_update_prefix) simp_all
  also have "\<dots> = map (\<lambda>j. levels ! j) [0 ..< length levels]"
    by (intro map_cong) (simp_all add: gray_of_gray ToUint8Clamp_unsigned)
  also have "\<dots> = levels" by (rule map_nth)
  finally show ?thesis .
qed


section \<open>Labels and confidences\<close>

lemma classify_ok:
  "classify vertices compactness = Some tc \<Longrightarrow>
   fst tc \<in> {''circle'', ''triangle'', ''rectangle'', ''square'', ''pentagon'', ''star''} \<and>
   in_unit_interval (snd tc)"
  by (auto simp: classify_def Let_def in_unit_interval_def split: if_splits)

lemma circle_confidence:
  assumes "js_gt compactness (Num 0.95)"
  shows "in_unit_interval (js_min compactness (Num 1))"
  using assms by (cases compactness) (auto simp: js_gt_def js_min_def in_unit_interval_def)

lemma processBlob_ok:
  assumes "processBlob blob width height = Some (Inr (Some s))"
  shows "shape_ok s"
proof -
  from assms have big: "\<not> length blob < 100" by (auto simp: processBlob_def)
  with assms obtain perimeter where per: "traceContour blob width height = Some (Inr perimeter)"
    by (auto simp: processBlob_def split: option.splits sum.splits)
  let ?c = "compactness_of (length blob) (length perimeter)"
  show ?thesis
  proof (cases "js_gt ?c (Num 0.95)")
    case True
    with assms big per have "type s = ''circle''" "confidence s = js_min ?c (Num 1)"
      by (auto simp: processBlob_def Let_def split: if_splits)
    with circle_confidence [OF True] show ?thesis by (simp add: shape_ok_def)
  next
    case False
    with assms big per obtain vertices tc where
      "classify vertices ?c = Some tc" "type s = fst tc" "confidence s = snd tc"
      by (auto simp: processBlob_def Let_def split: if_splits option.splits)
    with classify_ok [of vertices ?c tc] show ?thesis by (simp add: shape_ok_def)
  qed
qed

lemma detectLoop_ok:
  "detectLoop blobs width height found = Some (Inr result) \<Longrightarrow>
   \<forall>s\<in>set found. shape_ok s \<Longrightarrow> \<forall>s\<in>set result. shape_ok s"
proof (induction blobs arbitrary: found)
  case Nil
  then show ?case by simp
next
  case (Cons blob blobs)
  show ?case
  proof (cases "processBlob blob width height")
    case None
    with Cons.prems show ?thesis by simp
  next
    case (Some r)
    show ?thesis
    proof (cases r)
      case (Inl e)
      with Some Cons.prems show ?thesis by simp
    next
      case (Inr opt)
      show ?thesis
      proof (cases opt)
        case None
        with Some Inr Cons.prems Cons.IH [of found] show ?thesis by simp
      next
        case (Some s)
        with \<open>processBlob blob width height = Some r\<close> Inr
        have p: "processBlob blob width height = Some (Inr (Some s))" by simp
        from processBlob_ok [OF p] Cons.prems(2)
        have "\<forall>x\<in>set (found @ [s]). shape_ok x" by auto
        with Cons.IH [of "found @ [s]"] Cons.prems(1) p show ?thesis by simp
      qed
    qed
  qed
qed

text \<open>
  Claim C2.  Every shape in the list of a result that \<open>detectShapes\<close> returns has one of
  the six labels and a confidence that is a finite number between 0 and 1.
\<close>

theorem detectShapes_types_and_confidences:
  assumes "detectShapes startTime endTime imageData = Some (Inr result)"
  shows "\<forall>s\<in>set (shapes result).
           type s \<in> {''circle'', ''triangle'', ''rectangle'', ''square'', ''pentagon'', ''star''} \<and>
           in_unit_interval (confidence s)"
proof -
  from assms obtain blobs found where
    "detectLoop blobs (img_width imageData) (img_height imageData) [] = Some (Inr found)"
    "shapes result = found"
    by (auto simp: detectShapes_def Let_def split: option.splits sum.splits)
  with detectLoop_ok [of blobs _ _ "[]" found] show ?thesis
    by (simp add: shape_ok_def)
qed

subsection \<open>A detection\<close>

text \<open>
  The black square of 10 by 10 pixels: 100 pixels, a contour of 36 points, compactness
  \<open>400\<pi> / 1296 > 0.95\<close>.  It is reported as a circle.
\<close>

lemma square_levels_length: "length square_levels = 11 * 10"
  by code_simp

lemma square_histogram: "histogram_of square_levels = 100 # 1 # replicate 253 0 @ [9]"
  by code_simp

lemma square_total: "totalIntensity_of square_levels = 2296"
  by (simp add: totalIntensity_of_def square_levels_def)

lemma square_sweep:
  "optimalThreshold (otsuLoop (100 # 1 # replicate 253 0 @ [9]) 110 2296 0 otsu_init) = 1"
  by code_simp

lemma square_threshold: "otsuThreshold square_levels 11 10 = 1"
  using square_sweep by (simp add: otsuThreshold_def otsuSweep_def square_histogram square_total)

lemma square_binarize: "binarize square_levels 11 10 1 = square_mask"
  by code_simp

lemma square_contours: "findContours square_mask 11 10 = Some [square_blob]"
  by code_simp

lemma square_trace: "traceContour square_blob 11 10 = Some (Inr square_perimeter)"
  by code_simp

lemma square_lengths: "length square_blob = 100" "length square_perimeter = 36"
  by code_simp+

lemma square_compactness:
  "js_gt (compactness_of 100 36) (Num 0.95)" "\<not> js_lt (compactness_of 100 36) (Num 0.2)"
  "in_unit_interval (js_min (compactness_of 100 36) (Num 1))"
  by (simp_all add: compactness_of_def Math_PI_def js_gt_def js_min_def in_unit_interval_def)

lemma square_process: "processBlob square_blob 11 10 = Some (Inr (Some square_shape))"
proof -
  have "\<not> length square_blob < 100" by (simp add: square_lengths)
  then show ?thesis
    unfolding processBlob_def
    by (simp only: if_False if_True square_trace option.case sum.case Let_def square_lengths
        square_compactness square_shape_def)
qed

lemma square_detect:
  "detectShapes startTime endTime (gray_image square_levels 11 10) =
     Some (Inr \<lparr>shapes = [square_shape], processingTime = endTime - startTime,
                imageWidth = 11, imageHeight = 10\<rparr>)"
proof -
  have "toGrayscale (gray_image square_levels 11 10) = square_levels"
    by (rule toGrayscale_gray_image) (rule square_levels_length)
  then show ?thesis
    by (simp add: detectShapes_def gray_image_def otsuBinarize_def square_threshold
        square_binarize square_contours square_process del: One_nat_def)
qed

theorem detectShapes_types_and_confidences_witness:
  "detectShapes 0 7 (gray_image square_levels 11 10) =
     Some (Inr \<lparr>shapes = [square_shape], processingTime = 7,
                imageWidth = 11, imageHeight = 10\<rparr>) \<and>
   type square_shape = ''circle'' \<and>
   type square_shape \<in> {''circle'', ''triangle'', ''rectangle'', ''square'', ''pentagon'', ''star''} \<and>
   in_unit_interval (confidence square_shape)"
proof -
  have run: "detectShapes 0 7 (gray_image square_levels 11 10) =
     Some (Inr \<lparr>shapes = [square_shape], processingTime = 7,
                imageWidth = 11, imageHeight = 10\<rparr>)"
    using square_detect [of 0 7] by simp
  from detectShapes_types_and_confidences [OF run] run show ?thesis
    by (simp add: square_shape_def)
qed

section \<open>An image on which the detection never returns\<close>

lemma cycle_levels_length: "length cycle_levels = 11 * 13"
  by code_simp

lemma cycle_histogram: "histogram_of cycle_levels = 103 # 1 # replicate 253 0 @ [39]"
  by code_simp

lemma cycle_total: "totalIntensity_of cycle_levels = 9946"
  by (simp add: totalIntensity_of_def cycle_levels_def)

lemma cycle_sweep:
  "optimalThreshold (otsuLoop (103 # 1 # replicate 253 0 @ [39]) 143 9946 0 otsu_init) = 1"
  by code_simp

lemma cycle_threshold: "otsuThreshold cycle_levels 11 13 = 1"
  using cycle_sweep by (simp add: otsuThreshold_def otsuSweep_def cycle_histogram cycle_total)

lemma cycle_binarize: "binarize cycle_levels 11 13 1 = cycle_mask"
  by code_simp

lemma cycle_contours: "findContours cycle_mask 11 13 = Some [cycle_blob]"
  by code_simp

lemma cycle_process: "processBlob cycle_blob 11 13 = None"
  by (simp add: processBlob_def cycle_blob_length cycle_trace_diverges)

text \<open>
  The blob is one that the pipeline produces: on the image above \<open>detectShapes\<close> reaches
  the contour tracing of \<^const>\<open>cycle_blob\<close> and never returns.
\<close>

lemma cycle_detect: "detectShapes startTime endTime (gray_image cycle_levels 11 13) = None"
proof -
  have "toGrayscale (gray_image cycle_levels 11 13) = cycle_levels"
    by (rule toGrayscale_gray_image) (rule cycle_levels_length)
  then show ?thesis
    by (simp add: detectShapes_def gray_image_def otsuBinarize_def cycle_threshold
        cycle_binarize cycle_contours cycle_process del: One_nat_def)
qed

end
